theory Spec2Isabelle
  imports Main "HOL-Library.Word" "HOL-Library.Signed_Division"
begin

unbundle bit_operations_syntax

section \<open>The grid of MazeSolver.c\<close>

text \<open>
  The C program keeps every array behind a pointer and addresses it with an \<open>int\<close>
  offset. An array is modelled as a total function from the offset to the stored value,
  an assignment \<open>a[i] = v\<close> as a function update. Offsets, coordinates and counters are
  C \<open>int\<close>s, modelled as unbounded integers: the only products computed are
  \<open>rows * cols\<close> and offsets below it, and \<open>grid_init\<close> has allocated that many bytes.
  C's \<open>/\<close> and \<open>%\<close> truncate towards zero and are written \<open>sdiv\<close> and \<open>smod\<close>.
\<close>

type_synonym cell_t = "8 word"
type_synonym mark_t = "8 word"

definition M_NONE :: mark_t where "M_NONE = 0"
definition M_VISIT :: mark_t where "M_VISIT = 1"
definition M_FRONT :: mark_t where "M_FRONT = 2"
definition M_PATH :: mark_t where "M_PATH = 4"

record Grid =
  rows :: int
  cols :: int
  cells :: "int \<Rightarrow> cell_t"
  marks :: "int \<Rightarrow> mark_t"

text \<open>The struct \<open>CellRC {int r, c;}\<close> is a pair (row, column).\<close>

type_synonym CellRC = "int \<times> int"

definition grid_get :: "Grid \<Rightarrow> int \<Rightarrow> int \<Rightarrow> cell_t" where
  "grid_get g r c = cells g (r * cols g + c)"

definition grid_set :: "Grid \<Rightarrow> int \<Rightarrow> int \<Rightarrow> cell_t \<Rightarrow> Grid" where
  "grid_set g r c v = g\<lparr>cells := (cells g)(r * cols g + c := v)\<rparr>"

definition mark_get :: "Grid \<Rightarrow> int \<Rightarrow> int \<Rightarrow> mark_t" where
  "mark_get g r c = marks g (r * cols g + c)"

definition mark_or :: "Grid \<Rightarrow> int \<Rightarrow> int \<Rightarrow> mark_t \<Rightarrow> Grid" where
  "mark_or g r c v =
     g\<lparr>marks := (marks g)(r * cols g + c := marks g (r * cols g + c) OR v)\<rparr>"

definition mark_andnot :: "Grid \<Rightarrow> int \<Rightarrow> int \<Rightarrow> mark_t \<Rightarrow> Grid" where
  "mark_andnot g r c v =
     g\<lparr>marks := (marks g)(r * cols g + c := marks g (r * cols g + c) AND NOT v)\<rparr>"

text \<open>
  \<open>memset(a, v, n)\<close> and the loop \<open>for (i = 0; i < n; i++) a[i] = v\<close>: the first
  \<open>n\<close> entries are overwritten, the rest of the memory is left alone.
\<close>

definition fill :: "(int \<Rightarrow> 'a) \<Rightarrow> 'a \<Rightarrow> int \<Rightarrow> (int \<Rightarrow> 'a)" where
  "fill a v n = (\<lambda>i. if 0 \<le> i \<and> i < n then v else a i)"

text \<open>
  The C library's \<open>rand()\<close> is a parameter: \<open>rnd k\<close> is the (non-negative) value of the
  \<open>k\<close>-th call, and the number of calls made so far is threaded through.
\<close>

fun shuffle_loop :: "(nat \<Rightarrow> nat) \<Rightarrow> nat \<Rightarrow> nat list \<Rightarrow> nat \<Rightarrow> nat list \<times> nat" where
  "shuffle_loop rnd 0 arr k = (arr, k)"
| "shuffle_loop rnd (Suc i) arr k =
     (let j = rnd k mod (Suc i + 1);
          t = arr ! Suc i;
          arr1 = arr[Suc i := arr ! j];
          arr2 = arr1[j := t]
      in shuffle_loop rnd i arr2 (k + 1))"

definition shuffle_ints :: "(nat \<Rightarrow> nat) \<Rightarrow> nat list \<Rightarrow> nat \<Rightarrow> nat \<Rightarrow> nat list \<times> nat" where
  "shuffle_ints rnd arr n k = shuffle_loop rnd (n - 1) arr k"

section \<open>Stack and queue\<close>

record Stack =
  s_data :: "int \<Rightarrow> CellRC"
  s_top :: int
  s_cap :: int

definition stack_create :: "int \<Rightarrow> Stack" where
  "stack_create cap = \<lparr>s_data = (\<lambda>_. (0, 0)), s_top = 0, s_cap = cap\<rparr>"

definition stack_push :: "Stack \<Rightarrow> CellRC \<Rightarrow> Stack" where
  "stack_push s v =
     (if s_top s < s_cap s
      then s\<lparr>s_data := (s_data s)(s_top s := v), s_top := s_top s + 1\<rparr>
      else s)"

definition stack_pop :: "Stack \<Rightarrow> CellRC \<times> Stack" where
  "stack_pop s = (s_data s (s_top s - 1), s\<lparr>s_top := s_top s - 1\<rparr>)"

definition stack_empty :: "Stack \<Rightarrow> bool" where
  "stack_empty s = (s_top s = 0)"

record Queue =
  q_data :: "int \<Rightarrow> CellRC"
  q_head :: int
  q_tail :: int
  q_cap :: int

definition queue_create :: "int \<Rightarrow> Queue" where
  "queue_create cap = \<lparr>q_data = (\<lambda>_. (0, 0)), q_head = 0, q_tail = 0, q_cap = cap\<rparr>"

definition queue_push :: "Queue \<Rightarrow> CellRC \<Rightarrow> Queue" where
  "queue_push q v =
     (let q1 = q\<lparr>q_data := (q_data q)(q_tail q := v), q_tail := q_tail q + 1\<rparr>
      in if q_tail q1 \<ge> q_cap q1 then q1\<lparr>q_tail := 0\<rparr> else q1)"

definition queue_pop :: "Queue \<Rightarrow> CellRC \<times> Queue" where
  "queue_pop q =
     (let v = q_data q (q_head q);
          q1 = q\<lparr>q_head := q_head q + 1\<rparr>
      in (v, if q_head q1 \<ge> q_cap q1 then q1\<lparr>q_head := 0\<rparr> else q1))"

definition queue_empty :: "Queue \<Rightarrow> bool" where
  "queue_empty q = (q_head q = q_tail q)"

section \<open>Helpers of the solvers\<close>

definition is_inside :: "Grid \<Rightarrow> int \<Rightarrow> int \<Rightarrow> bool" where
  "is_inside g r c = (r \<ge> 0 \<and> r < rows g \<and> c \<ge> 0 \<and> c < cols g)"

definition nbrs4 :: "(int \<times> int) list" where
  "nbrs4 = [(-1, 0), (1, 0), (0, -1), (0, 1)]"

subsection \<open>reconstruct_and_mark\<close>

text \<open>
  The loop \<open>while (cur != -2 && cur != -1)\<close> follows parent links and has no bound of
  its own, so it is a partial function: \<open>None\<close> is a walk that never ends.
\<close>

partial_function (option) reconstruct_loop ::
  "Grid \<Rightarrow> (int \<Rightarrow> int) \<Rightarrow> int \<Rightarrow> int \<Rightarrow> Grid option" where
  "reconstruct_loop g parent cls cur =
     (if cur \<noteq> -2 \<and> cur \<noteq> -1
      then reconstruct_loop (mark_or g (cur sdiv cls) (cur smod cls) M_PATH) parent cls (parent cur)
      else Some g)"

definition reconstruct_and_mark ::
  "Grid \<Rightarrow> (int \<Rightarrow> int) \<Rightarrow> int \<Rightarrow> int \<Rightarrow> int \<Rightarrow> Grid option" where
  "reconstruct_and_mark g parent cls er ec =
     (let idx = er * cls + ec
      in if parent idx = -1 then Some g
         else reconstruct_loop g parent cls idx)"

text \<open>
  The path itself is never stored by the program: it is the sequence of values that
  \<open>cur\<close> takes in the loop above, one per frame drawn. \<open>path_cells\<close> records that
  sequence, and \<open>reconstruct_path\<close> adds the early return of \<open>reconstruct_and_mark\<close>.
\<close>

partial_function (option) path_cells :: "(int \<Rightarrow> int) \<Rightarrow> int \<Rightarrow> int list option" where
  "path_cells parent cur =
     (if cur \<noteq> -2 \<and> cur \<noteq> -1
      then Option.bind (path_cells parent (parent cur)) (\<lambda>p. Some (cur # p))
      else Some [])"

definition reconstruct_path :: "(int \<Rightarrow> int) \<Rightarrow> int \<Rightarrow> int \<Rightarrow> int \<Rightarrow> int list option" where
  "reconstruct_path parent cls er ec =
     (let idx = er * cls + ec
      in if parent idx = -1 then Some [] else path_cells parent idx)"

subsection \<open>solve_bfs\<close>

text \<open>
  The locals of \<open>solve_bfs\<close> that live across loop iterations. \<open>b_done\<close> records that
  the loop was left through \<open>break\<close>.
\<close>

record bfs_state =
  b_grid :: Grid
  b_parent :: "int \<Rightarrow> int"
  b_queue :: Queue
  b_done :: bool

definition bfs_init :: "Grid \<Rightarrow> int \<Rightarrow> int \<Rightarrow> bfs_state" where
  "bfs_init g sr sc =
     (let rws = rows g; cls = cols g;
          parent = fill (\<lambda>_. 0) (-1) (rws * cls);
          g1 = g\<lparr>marks := fill (marks g) M_NONE (rws * cls)\<rparr>;
          q = queue_push (queue_create (rws * cls + 5)) (sr, sc);
          parent1 = parent(sr * cls + sc := -2);
          g2 = mark_or g1 sr sc M_FRONT
      in \<lparr>b_grid = g2, b_parent = parent1, b_queue = q, b_done = False\<rparr>)"

text \<open>The body of \<open>for (k = 0; k < 4; k++)\<close>, for the popped cell \<open>(r, c)\<close>.\<close>

definition bfs_visit :: "int \<Rightarrow> int \<Rightarrow> bfs_state \<Rightarrow> nat \<Rightarrow> bfs_state" where
  "bfs_visit r c s k =
     (let g = b_grid s; cls = cols g;
          nr = r + fst (nbrs4 ! k); nc = c + snd (nbrs4 ! k)
      in if is_inside g nr nc \<and> grid_get g nr nc = 0 \<and> b_parent s (nr * cls + nc) = -1
         then s\<lparr>b_parent := (b_parent s)(nr * cls + nc := r * cls + c),
                b_queue := queue_push (b_queue s) (nr, nc),
                b_grid := mark_or g nr nc M_FRONT\<rparr>
         else s)"

text \<open>The first part of the loop body: pop, clear the frontier bit, mark visited.\<close>

definition bfs_take :: "bfs_state \<Rightarrow> CellRC \<times> bfs_state" where
  "bfs_take s =
     (let (cur, q1) = queue_pop (b_queue s);
          r = fst cur; c = snd cur;
          g1 = mark_andnot (b_grid s) r c M_FRONT;
          g2 = (if marks g1 (r * cols g1 + c) AND M_VISIT = 0 then mark_or g1 r c M_VISIT else g1)
      in (cur, s\<lparr>b_grid := g2, b_queue := q1\<rparr>))"

text \<open>
  One iteration of the while loop, cut after the first \<open>n\<close> rounds of the inner
  \<open>for\<close>; the whole body is \<open>n = 4\<close>.
\<close>

definition bfs_body :: "nat \<Rightarrow> int \<Rightarrow> int \<Rightarrow> bfs_state \<Rightarrow> bfs_state" where
  "bfs_body n er ec s =
     (let (cur, s1) = bfs_take s; r = fst cur; c = snd cur
      in if r = er \<and> c = ec then s1\<lparr>b_done := True\<rparr>
         else foldl (bfs_visit r c) s1 (take n [0, 1, 2, 3]))"

definition bfs_step :: "int \<Rightarrow> int \<Rightarrow> bfs_state \<Rightarrow> bfs_state" where
  "bfs_step er ec s = bfs_body 4 er ec s"

definition bfs_running :: "bfs_state \<Rightarrow> bool" where
  "bfs_running s = (\<not> b_done s \<and> \<not> queue_empty (b_queue s))"

partial_function (option) bfs_loop :: "int \<Rightarrow> int \<Rightarrow> bfs_state \<Rightarrow> bfs_state option" where
  "bfs_loop er ec s = (if bfs_running s then bfs_loop er ec (bfs_step er ec s) else Some s)"

text \<open>The search up to the call of \<open>reconstruct_and_mark\<close>, and the whole function.\<close>

definition bfs_search :: "Grid \<Rightarrow> int \<Rightarrow> int \<Rightarrow> int \<Rightarrow> int \<Rightarrow> bfs_state option" where
  "bfs_search g sr sc er ec = bfs_loop er ec (bfs_init g sr sc)"

definition solve_bfs :: "Grid \<Rightarrow> int \<Rightarrow> int \<Rightarrow> int \<Rightarrow> int \<Rightarrow> Grid option" where
  "solve_bfs g sr sc er ec =
     Option.bind (bfs_search g sr sc er ec)
       (\<lambda>s. reconstruct_and_mark (b_grid s) (b_parent s) (cols g) er ec)"

subsection \<open>solve_dfs\<close>

record dfs_state =
  d_grid :: Grid
  d_parent :: "int \<Rightarrow> int"
  d_stack :: Stack
  d_done :: bool
  d_rand :: nat

definition dfs_init :: "Grid \<Rightarrow> int \<Rightarrow> int \<Rightarrow> nat \<Rightarrow> dfs_state" where
  "dfs_init g sr sc k =
     (let rws = rows g; cls = cols g;
          parent = fill (\<lambda>_. 0) (-1) (rws * cls);
          g1 = g\<lparr>marks := fill (marks g) M_NONE (rws * cls)\<rparr>;
          st = stack_push (stack_create (rws * cls + 5)) (sr, sc);
          parent1 = parent(sr * cls + sc := -2);
          g2 = mark_or g1 sr sc M_FRONT
      in \<lparr>d_grid = g2, d_parent = parent1, d_stack = st, d_done = False, d_rand = k\<rparr>)"

definition dfs_visit :: "int \<Rightarrow> int \<Rightarrow> dfs_state \<Rightarrow> nat \<Rightarrow> dfs_state" where
  "dfs_visit r c s k =
     (let g = d_grid s; cls = cols g;
          nr = r + fst (nbrs4 ! k); nc = c + snd (nbrs4 ! k)
      in if is_inside g nr nc \<and> grid_get g nr nc = 0 \<and> marks g (nr * cls + nc) = M_NONE
         then s\<lparr>d_parent := (if d_parent s (nr * cls + nc) = -1
                              then (d_parent s)(nr * cls + nc := r * cls + c)
                              else d_parent s),
                d_stack := stack_push (d_stack s) (nr, nc),
                d_grid := mark_or g nr nc M_FRONT\<rparr>
         else s)"

definition dfs_take :: "dfs_state \<Rightarrow> CellRC \<times> dfs_state" where
  "dfs_take s =
     (let (cur, st1) = stack_pop (d_stack s);
          r = fst cur; c = snd cur;
          g1 = mark_andnot (d_grid s) r c M_FRONT;
          g2 = (if marks g1 (r * cols g1 + c) AND M_VISIT = 0 then mark_or g1 r c M_VISIT else g1)
      in (cur, s\<lparr>d_grid := g2, d_stack := st1\<rparr>))"

definition dfs_body :: "(nat \<Rightarrow> nat) \<Rightarrow> nat \<Rightarrow> int \<Rightarrow> int \<Rightarrow> dfs_state \<Rightarrow> dfs_state" where
  "dfs_body rnd n er ec s =
     (let (cur, s1) = dfs_take s; r = fst cur; c = snd cur
      in if r = er \<and> c = ec then s1\<lparr>d_done := True\<rparr>
         else (let (order, k) = shuffle_ints rnd [0, 1, 2, 3] 4 (d_rand s1)
               in foldl (dfs_visit r c) (s1\<lparr>d_rand := k\<rparr>) (take n order)))"

definition dfs_step :: "(nat \<Rightarrow> nat) \<Rightarrow> int \<Rightarrow> int \<Rightarrow> dfs_state \<Rightarrow> dfs_state" where
  "dfs_step rnd er ec s = dfs_body rnd 4 er ec s"

definition dfs_running :: "dfs_state \<Rightarrow> bool" where
  "dfs_running s = (\<not> d_done s \<and> \<not> stack_empty (d_stack s))"

partial_function (option) dfs_loop ::
  "(nat \<Rightarrow> nat) \<Rightarrow> int \<Rightarrow> int \<Rightarrow> dfs_state \<Rightarrow> dfs_state option" where
  "dfs_loop rnd er ec s =
     (if dfs_running s then dfs_loop rnd er ec (dfs_step rnd er ec s) else Some s)"

definition dfs_search ::
  "(nat \<Rightarrow> nat) \<Rightarrow> nat \<Rightarrow> Grid \<Rightarrow> int \<Rightarrow> int \<Rightarrow> int \<Rightarrow> int \<Rightarrow> dfs_state option" where
  "dfs_search rnd k g sr sc er ec = dfs_loop rnd er ec (dfs_init g sr sc k)"

definition solve_dfs ::
  "(nat \<Rightarrow> nat) \<Rightarrow> nat \<Rightarrow> Grid \<Rightarrow> int \<Rightarrow> int \<Rightarrow> int \<Rightarrow> int \<Rightarrow> Grid option" where
  "solve_dfs rnd k g sr sc er ec =
     Option.bind (dfs_search rnd k g sr sc er ec)
       (\<lambda>s. reconstruct_and_mark (d_grid s) (d_parent s) (cols g) er ec)"

section \<open>generate_maze\<close>

record gen_state =
  gn_grid :: Grid
  gn_vis :: "int \<Rightarrow> 8 word"
  gn_stack :: "int \<Rightarrow> CellRC"
  gn_top :: int
  gn_rand :: nat

definition dirs2 :: "(int \<times> int) list" where
  "dirs2 = [(-2, 0), (2, 0), (0, -2), (0, 2)]"

text \<open>The two nested \<open>for\<close> loops that fill the grid with walls and open the rooms.\<close>

definition gen_fill :: "Grid \<Rightarrow> Grid" where
  "gen_fill g =
     (let rws = rows g; cls = cols g;
          g1 = foldl (\<lambda>g r. foldl (\<lambda>g c. grid_set g r c 1) g [0..cls - 1]) g [0..rws - 1]
      in foldl (\<lambda>g r. foldl (\<lambda>g c. grid_set g r c 0) g (filter odd [1..cls - 1]))
           g1 (filter odd [1..rws - 1]))"

definition gen_init :: "Grid \<Rightarrow> nat \<Rightarrow> gen_state" where
  "gen_init g k =
     (let g2 = gen_fill g; cls = cols g
      in \<lparr>gn_grid = g2, gn_vis = (\<lambda>_. 0)(1 * cls + 1 := 1),
          gn_stack = (\<lambda>_. (0, 0))(0 := (1, 1)), gn_top = 1, gn_rand = k\<rparr>)"

definition gen_choices :: "gen_state \<Rightarrow> int \<Rightarrow> int \<Rightarrow> nat list" where
  "gen_choices s r c =
     (let g = gn_grid s; rws = rows g; cls = cols g
      in filter (\<lambda>i. let nr = r + fst (dirs2 ! i); nc = c + snd (dirs2 ! i)
                     in nr > 0 \<and> nr < rws - 1 \<and> nc > 0 \<and> nc < cls - 1
                        \<and> gn_vis s (nr * cls + nc) = 0)
           [0, 1, 2, 3])"

definition gen_step :: "(nat \<Rightarrow> nat) \<Rightarrow> gen_state \<Rightarrow> gen_state" where
  "gen_step rnd s =
     (let g = gn_grid s; cls = cols g;
          cur = gn_stack s (gn_top s - 1);
          r = fst cur; c = snd cur;
          choices = gen_choices s r c;
          ch = length choices
      in if ch > 0
         then (let pick = choices ! (rnd (gn_rand s) mod ch);
                   nr = r + fst (dirs2 ! pick); nc = c + snd (dirs2 ! pick);
                   wr = r + fst (dirs2 ! pick) sdiv 2; wc = c + snd (dirs2 ! pick) sdiv 2
               in s\<lparr>gn_grid := grid_set g wr wc 0,
                     gn_vis := (gn_vis s)(nr * cls + nc := 1),
                     gn_stack := (gn_stack s)(gn_top s := (nr, nc)),
                     gn_top := gn_top s + 1,
                     gn_rand := gn_rand s + 1\<rparr>)
         else s\<lparr>gn_top := gn_top s - 1\<rparr>)"

partial_function (option) gen_loop :: "(nat \<Rightarrow> nat) \<Rightarrow> gen_state \<Rightarrow> gen_state option" where
  "gen_loop rnd s = (if gn_top s > 0 then gen_loop rnd (gen_step rnd s) else Some s)"

definition generate_maze :: "(nat \<Rightarrow> nat) \<Rightarrow> nat \<Rightarrow> Grid \<Rightarrow> Grid option" where
  "generate_maze rnd k g = map_option gn_grid (gen_loop rnd (gen_init g k))"

section \<open>Configuration read by main\<close>

text \<open>
  \<open>get_int_with_default\<close> reads a line and parses it with \<open>sscanf("%d")\<close>; its input is
  modelled by the parsed number, \<open>None\<close> when there is no line or no number in it.
\<close>

definition get_int_with_default :: "int option \<Rightarrow> int \<Rightarrow> int" where
  "get_int_with_default inp def = (case inp of None \<Rightarrow> def | Some x \<Rightarrow> x)"

record Config =
  cfg_cols :: int
  cfg_rows :: int
  cfg_algo :: int
  cfg_delay :: int

text \<open>
  The start of \<open>main\<close>, up to the values it hands to \<open>grid_init\<close>, \<open>solve_dfs\<close> and
  \<open>solve_bfs\<close>: \<open>cfg_delay\<close> is the argument \<open>delay_ms\<close> of both solvers.
\<close>

definition main_config :: "int option \<Rightarrow> int option \<Rightarrow> int option \<Rightarrow> int option \<Rightarrow> Config" where
  "main_config in_cols in_rows in_algo in_delay =
     (let cls = get_int_with_default in_cols 31;
          rws = get_int_with_default in_rows 21;
          cls = (if cls < 11 then 11 else cls);
          rws = (if rws < 11 then 11 else rws);
          cls = (if cls smod 2 = 0 then cls + 1 else cls);
          rws = (if rws smod 2 = 0 then rws + 1 else rws);
          algo_choice = get_int_with_default in_algo 2;
          delay = get_int_with_default in_delay 40
      in \<lparr>cfg_cols = cls, cfg_rows = rws, cfg_algo = algo_choice, cfg_delay = delay\<rparr>)"

text \<open>
  \<open>sleep_ms\<close> as compiled outside Windows: \<open>if (ms > 0) usleep(ms * 1000)\<close>. The result
  is what happens: no call, a call with the number of microseconds, or a product that
  does not fit a 32-bit \<open>int\<close>.
\<close>

datatype sleep_outcome = NoSleep | Usleep int | Overflow

definition sleep_ms :: "int \<Rightarrow> sleep_outcome" where
  "sleep_ms ms =
     (if ms > 0
      then (if ms * 1000 \<le> 2147483647 then Usleep (ms * 1000) else Overflow)
      else NoSleep)"

section \<open>Cells, paths and parent chains\<close>

text \<open>
  A cell is inside the grid, and open when it is inside and its \<open>cells\<close> entry is 0.
  Two cells are adjacent when they differ by one step up, down, left or right.
\<close>

definition cell_index :: "Grid \<Rightarrow> CellRC \<Rightarrow> int" where
  "cell_index g v = fst v * cols g + snd v"

definition cell_of :: "int \<Rightarrow> int \<Rightarrow> CellRC" where
  "cell_of cls i = (i sdiv cls, i smod cls)"

definition inside :: "Grid \<Rightarrow> CellRC \<Rightarrow> bool" where
  "inside g v = is_inside g (fst v) (snd v)"

definition is_open :: "Grid \<Rightarrow> CellRC \<Rightarrow> bool" where
  "is_open g v = (inside g v \<and> grid_get g (fst v) (snd v) = 0)"

definition adjacent :: "CellRC \<Rightarrow> CellRC \<Rightarrow> bool" where
  "adjacent u v = (\<bar>fst u - fst v\<bar> + \<bar>snd u - snd v\<bar> = 1)"

definition nbr :: "CellRC \<Rightarrow> nat \<Rightarrow> CellRC" where
  "nbr u k = (fst u + fst (nbrs4 ! k), snd u + snd (nbrs4 ! k))"

text \<open>
  A path is listed the way \<open>reconstruct_and_mark\<close> walks it, from the end cell back to
  the start: every cell is open and each one is adjacent to the next.
\<close>

fun open_path :: "Grid \<Rightarrow> CellRC list \<Rightarrow> bool" where
  "open_path g [] = False"
| "open_path g [v] = is_open g v"
| "open_path g (v # u # p) = (is_open g v \<and> adjacent u v \<and> open_path g (u # p))"

definition is_route :: "Grid \<Rightarrow> CellRC \<Rightarrow> CellRC \<Rightarrow> CellRC list \<Rightarrow> bool" where
  "is_route g s v p = (open_path g p \<and> hd p = v \<and> last p = s)"

definition reachable :: "Grid \<Rightarrow> CellRC \<Rightarrow> CellRC \<Rightarrow> bool" where
  "reachable g s v = (\<exists>p. is_route g s v p)"

text \<open>The least number of steps between adjacent open cells from \<open>s\<close> to \<open>v\<close>.\<close>

definition min_steps :: "Grid \<Rightarrow> CellRC \<Rightarrow> CellRC \<Rightarrow> nat" where
  "min_steps g s v = (LEAST n. \<exists>p. is_route g s v p \<and> length p = Suc n)"

text \<open>
  \<open>parent_path parent i p\<close>: following the parent links from offset \<open>i\<close> visits the
  offsets \<open>p\<close> and ends at a cell whose parent is the root sentinel \<open>-2\<close>.
\<close>

inductive parent_path :: "(int \<Rightarrow> int) \<Rightarrow> int \<Rightarrow> int list \<Rightarrow> bool" for parent where
  root: "parent i = -2 \<Longrightarrow> 0 \<le> i \<Longrightarrow> parent_path parent i [i]"
| link: "0 \<le> parent i \<Longrightarrow> 0 \<le> i \<Longrightarrow> parent_path parent (parent i) p
         \<Longrightarrow> parent_path parent i (i # p)"

text \<open>
  The parent array over the offsets \<open>0 ..< n\<close> is a tree rooted at \<open>start\<close>: entries
  are sentinels or offsets below \<open>n\<close>, and the links of every cell that has a parent
  lead to \<open>start\<close>.
\<close>

definition parent_tree :: "(int \<Rightarrow> int) \<Rightarrow> int \<Rightarrow> int \<Rightarrow> bool" where
  "parent_tree parent n start =
     (0 \<le> start \<and> start < n
      \<and> (\<forall>i. 0 \<le> i \<and> i < n \<longrightarrow> parent i < n)
      \<and> (\<forall>i. 0 \<le> i \<and> i < n \<and> parent i \<noteq> -1 \<longrightarrow> (\<exists>p. parent_path parent i p \<and> last p = start)))"

text \<open>The marks after the path bit was set on the offsets \<open>p\<close>, one after the other.\<close>

definition mark_path :: "Grid \<Rightarrow> int \<Rightarrow> int list \<Rightarrow> Grid" where
  "mark_path g cls p = foldl (\<lambda>g j. mark_or g (j sdiv cls) (j smod cls) M_PATH) g p"

text \<open>The cells whose parent entry is set, and the entries of a queue or stack as a list.\<close>

definition discovered :: "Grid \<Rightarrow> (int \<Rightarrow> int) \<Rightarrow> CellRC set" where
  "discovered g parent = {v. inside g v \<and> parent (cell_index g v) \<noteq> -1}"

definition entries :: "(int \<Rightarrow> CellRC) \<Rightarrow> int \<Rightarrow> int \<Rightarrow> CellRC list" where
  "entries d lo hi = map d [lo..hi - 1]"

section \<open>Invariants of the search loops\<close>

definition grid_same :: "Grid \<Rightarrow> Grid \<Rightarrow> bool" where
  "grid_same g h = (rows h = rows g \<and> cols h = cols g \<and> cells h = cells g)"

text \<open>
  Everything ever pushed on the queue (\<open>queue_hist\<close>), the part already popped
  (\<open>queue_done\<close>) and the part still waiting (\<open>queue_list\<close>), read off the array as long
  as \<open>tail\<close> has not wrapped around.
\<close>

definition queue_hist :: "Queue \<Rightarrow> CellRC list" where
  "queue_hist q = entries (q_data q) 0 (q_tail q)"

definition queue_done :: "Queue \<Rightarrow> CellRC list" where
  "queue_done q = entries (q_data q) 0 (q_head q)"

definition queue_list :: "Queue \<Rightarrow> CellRC list" where
  "queue_list q = entries (q_data q) (q_head q) (q_tail q)"

definition stack_list :: "Stack \<Rightarrow> CellRC list" where
  "stack_list s = entries (s_data s) 0 (s_top s)"

text \<open>
  The shape of a state of \<open>solve_bfs\<close> on the grid \<open>g\<close> with start cell \<open>st\<close>: the
  grid is \<open>g\<close> up to marks, the queue has not wrapped, no cell was pushed twice, and
  the cells pushed are the cells whose parent is set.
\<close>

definition bfs_shape :: "Grid \<Rightarrow> CellRC \<Rightarrow> bfs_state \<Rightarrow> bool" where
  "bfs_shape g st s =
     (grid_same g (b_grid s)
      \<and> q_cap (b_queue s) = rows g * cols g + 5
      \<and> 0 \<le> q_head (b_queue s) \<and> q_head (b_queue s) \<le> q_tail (b_queue s)
      \<and> distinct (queue_hist (b_queue s))
      \<and> set (queue_hist (b_queue s)) = discovered g (b_parent s)
      \<and> inside g st \<and> b_parent s (cell_index g st) = -2)"

text \<open>As long as the loop has not left through \<open>break\<close>, the end cell was not popped.\<close>

definition bfs_unseen :: "CellRC \<Rightarrow> bfs_state \<Rightarrow> bool" where
  "bfs_unseen e s = (b_done s \<or> e \<notin> set (queue_done (b_queue s)))"

text \<open>The states at the head of the while loop of \<open>solve_bfs\<close>.\<close>

inductive bfs_reach :: "Grid \<Rightarrow> int \<Rightarrow> int \<Rightarrow> int \<Rightarrow> int \<Rightarrow> bfs_state \<Rightarrow> bool"
  for g sr sc er ec where
  bfs_reach_init: "bfs_reach g sr sc er ec (bfs_init g sr sc)"
| bfs_reach_step: "bfs_reach g sr sc er ec s \<Longrightarrow> bfs_running s
     \<Longrightarrow> bfs_reach g sr sc er ec (bfs_step er ec s)"

text \<open>
  The shape of a state of \<open>solve_dfs\<close>: the stack holds distinct cells, a cell is
  marked exactly when its parent is set, and a marked cell is on the stack or visited.
\<close>

definition dfs_shape :: "Grid \<Rightarrow> CellRC \<Rightarrow> dfs_state \<Rightarrow> bool" where
  "dfs_shape g st s =
     (grid_same g (d_grid s)
      \<and> s_cap (d_stack s) = rows g * cols g + 5
      \<and> 0 \<le> s_top (d_stack s)
      \<and> distinct (stack_list (d_stack s))
      \<and> set (stack_list (d_stack s)) \<subseteq> discovered g (d_parent s)
      \<and> (\<forall>v. inside g v \<longrightarrow>
            (marks (d_grid s) (cell_index g v) \<noteq> M_NONE) = (v \<in> discovered g (d_parent s)))
      \<and> (\<forall>v. v \<in> discovered g (d_parent s) \<longrightarrow>
            v \<in> set (stack_list (d_stack s))
            \<or> marks (d_grid s) (cell_index g v) AND M_VISIT \<noteq> 0)
      \<and> inside g st \<and> d_parent s (cell_index g st) = -2)"

definition dfs_unseen :: "Grid \<Rightarrow> CellRC \<Rightarrow> dfs_state \<Rightarrow> bool" where
  "dfs_unseen g e s = (d_done s \<or> marks (d_grid s) (cell_index g e) AND M_VISIT = 0)"

inductive dfs_reach ::
  "(nat \<Rightarrow> nat) \<Rightarrow> nat \<Rightarrow> Grid \<Rightarrow> int \<Rightarrow> int \<Rightarrow> int \<Rightarrow> int \<Rightarrow> dfs_state \<Rightarrow> bool"
  for rnd k g sr sc er ec where
  dfs_reach_init: "dfs_reach rnd k g sr sc er ec (dfs_init g sr sc k)"
| dfs_reach_step: "dfs_reach rnd k g sr sc er ec s \<Longrightarrow> dfs_running s
     \<Longrightarrow> dfs_reach rnd k g sr sc er ec (dfs_step rnd er ec s)"

text \<open>The cells of the grid that have no parent yet.\<close>

definition undiscovered :: "Grid \<Rightarrow> (int \<Rightarrow> int) \<Rightarrow> CellRC set" where
  "undiscovered g parent = {v. inside g v \<and> parent (cell_index g v) = -1}"

text \<open>
  A queue that is safe on the grid \<open>g\<close>: \<open>tail\<close> has never wrapped, so the array up
  to \<open>tail\<close> holds every cell ever pushed, each once, and the next push writes a slot
  beyond all unread entries. A stack that is safe: distinct entries and room for a push.
\<close>

definition queue_safe :: "Grid \<Rightarrow> Queue \<Rightarrow> bool" where
  "queue_safe g q =
     (distinct (queue_hist q) \<and> 0 \<le> q_head q \<and> q_head q \<le> q_tail q
      \<and> q_tail q \<le> rows g * cols g \<and> q_tail q < q_cap q)"

definition stack_safe :: "Grid \<Rightarrow> Stack \<Rightarrow> bool" where
  "stack_safe g st =
     (distinct (stack_list st) \<and> 0 \<le> s_top st
      \<and> s_top st \<le> rows g * cols g \<and> s_top st < s_cap st)"

text \<open>What decreases in every iteration of the loop of \<open>solve_dfs\<close>.\<close>

definition dfs_measure :: "Grid \<Rightarrow> dfs_state \<Rightarrow> nat" where
  "dfs_measure g s = nat (s_top (d_stack s)) + card (undiscovered g (d_parent s))"


text \<open>
  The parent links of every discovered cell lead back to the start along a path of
  open cells; \<open>L v n\<close> is what is known about the number \<open>n\<close> of cells on the path
  of \<open>v\<close> (nothing for depth-first search, the least possible number for breadth-first
  search).
\<close>

definition parent_routes ::
  "(CellRC \<Rightarrow> nat \<Rightarrow> bool) \<Rightarrow> Grid \<Rightarrow> CellRC \<Rightarrow> (int \<Rightarrow> int) \<Rightarrow> bool" where
  "parent_routes L g st parent =
     (\<forall>v. v \<in> discovered g parent \<longrightarrow>
        (\<exists>p. parent_path parent (cell_index g v) p
             \<and> is_route g st v (map (cell_of (cols g)) p) \<and> L v (length p)))"

definition any_length :: "CellRC \<Rightarrow> nat \<Rightarrow> bool" where
  "any_length v n = True"

definition least_length :: "Grid \<Rightarrow> CellRC \<Rightarrow> CellRC \<Rightarrow> nat \<Rightarrow> bool" where
  "least_length g st v n = (n = Suc (min_steps g st v))"

text \<open>Every open neighbour of a cell of \<open>P\<close> is discovered.\<close>

definition closed_cells :: "Grid \<Rightarrow> CellRC set \<Rightarrow> (int \<Rightarrow> int) \<Rightarrow> bool" where
  "closed_cells g P parent =
     (\<forall>w v. w \<in> P \<and> is_open g v \<and> adjacent w v \<longrightarrow> v \<in> discovered g parent)"

text \<open>
  Breadth-first search at the head of the loop, with the popped cells \<open>P\<close> and the
  waiting cells \<open>Q\<close>, and in the middle of the iteration for the cell \<open>u\<close>.
\<close>

definition bfs_head :: "Grid \<Rightarrow> CellRC \<Rightarrow> CellRC set \<Rightarrow> CellRC list \<Rightarrow> (int \<Rightarrow> int) \<Rightarrow> bool" where
  "bfs_head g st P Q parent =
     (closed_cells g P parent \<and> discovered g parent = P \<union> set Q
      \<and> sorted (map (min_steps g st) Q)
      \<and> (\<forall>q\<in>set Q. min_steps g st q \<le> min_steps g st (hd Q) + 1))"

definition bfs_mid ::
  "Grid \<Rightarrow> CellRC \<Rightarrow> CellRC set \<Rightarrow> CellRC \<Rightarrow> CellRC list \<Rightarrow> (int \<Rightarrow> int) \<Rightarrow> bool" where
  "bfs_mid g st P u R parent =
     (closed_cells g P parent \<and> discovered g parent = P \<union> {u} \<union> set R
      \<and> sorted (map (min_steps g st) R)
      \<and> (\<forall>q\<in>set R. min_steps g st u \<le> min_steps g st q
                     \<and> min_steps g st q \<le> min_steps g st u + 1))"

section \<open>Invariants of the generator\<close>

text \<open>
  A room is a cell of the grid with both coordinates odd; a door is an open cell of the
  grid that is not a room (an opened wall position).
\<close>

definition room :: "Grid \<Rightarrow> CellRC \<Rightarrow> bool" where
  "room g v = (inside g v \<and> odd (fst v) \<and> odd (snd v))"

definition doors :: "Grid \<Rightarrow> CellRC set" where
  "doors h = {w. inside h w \<and> \<not> room h w \<and> is_open h w}"

definition gen_visited :: "Grid \<Rightarrow> gen_state \<Rightarrow> CellRC set" where
  "gen_visited g s = {v. room g v \<and> gn_vis s (cell_index g v) \<noteq> 0}"

definition gen_stack_list :: "gen_state \<Rightarrow> CellRC list" where
  "gen_stack_list s = entries (gn_stack s) 0 (gn_top s)"

text \<open>The room two steps away in direction \<open>k\<close>, and the wall position in between.\<close>

definition far :: "CellRC \<Rightarrow> nat \<Rightarrow> CellRC" where
  "far u k = (fst u + fst (dirs2 ! k), snd u + snd (dirs2 ! k))"

definition wall_between :: "CellRC \<Rightarrow> nat \<Rightarrow> CellRC" where
  "wall_between u k = (fst u + fst (dirs2 ! k) sdiv 2, snd u + snd (dirs2 ! k) sdiv 2)"

text \<open>
  The invariant of the while loop of \<open>generate_maze\<close> on a grid of the dimensions of
  \<open>g\<close>: rooms are open, the rooms next to a door are visited, there is one door less
  than visited rooms, every visited room has a route to \<open>(1, 1)\<close>, the stack holds
  visited rooms, and a visited room that is not on the stack has no unvisited room two
  steps away.
\<close>

definition gen_inv :: "Grid \<Rightarrow> gen_state \<Rightarrow> bool" where
  "gen_inv g s =
     (rows (gn_grid s) = rows g \<and> cols (gn_grid s) = cols g
      \<and> (\<forall>v. room g v \<longrightarrow> is_open (gn_grid s) v)
      \<and> (\<forall>w a. w \<in> doors (gn_grid s) \<and> room g a \<and> adjacent a w \<longrightarrow> a \<in> gen_visited g s)
      \<and> card (doors (gn_grid s)) + 1 = card (gen_visited g s)
      \<and> (1, 1) \<in> gen_visited g s
      \<and> (\<forall>v\<in>gen_visited g s. reachable (gn_grid s) (1, 1) v)
      \<and> 0 \<le> gn_top s
      \<and> set (gen_stack_list s) \<subseteq> gen_visited g s
      \<and> (\<forall>v\<in>gen_visited g s. v \<notin> set (gen_stack_list s) \<longrightarrow>
            (\<forall>k<4. room g (far v k) \<longrightarrow> far v k \<in> gen_visited g s)))"

definition gen_measure :: "Grid \<Rightarrow> gen_state \<Rightarrow> nat" where
  "gen_measure g s = 2 * card ({v. room g v} - gen_visited g s) + nat (gn_top s)"

section \<open>Offsets and mark bits\<close>

lemma sdiv_nonneg: "0 \<le> a \<Longrightarrow> 0 < b \<Longrightarrow> a sdiv b = a div (b::int)"
  by (cases "a = 0") (simp_all add: signed_divide_int_def)

lemma smod_nonneg: "0 \<le> a \<Longrightarrow> 0 < b \<Longrightarrow> a smod b = a mod (b::int)"
  by (cases "a = 0") (simp_all add: signed_modulo_int_def)

lemma idx_nonneg: "0 \<le> r \<Longrightarrow> 0 \<le> c \<Longrightarrow> c < cls \<Longrightarrow> 0 \<le> r * cls + (c::int)"
  by (simp add: add_nonneg_nonneg)

lemma idx_sdiv:
  assumes "0 \<le> r" "0 \<le> c" "c < cls"
  shows "(r * cls + c) sdiv cls = (r::int)"
proof -
  have p: "0 < cls" using assms by linarith
  have n: "0 \<le> r * cls + c" using assms by (rule idx_nonneg)
  have "(r * cls + c) div cls = r" using assms p by (simp add: div_pos_pos_trivial)
  then show ?thesis using sdiv_nonneg[OF n p] by simp
qed

lemma idx_smod:
  assumes "0 \<le> r" "0 \<le> c" "c < cls"
  shows "(r * cls + c) smod cls = (c::int)"
proof -
  have p: "0 < cls" using assms by linarith
  have n: "0 \<le> r * cls + c" using assms by (rule idx_nonneg)
  have "(r * cls + c) mod cls = c" using assms p by simp
  then show ?thesis using smod_nonneg[OF n p] by simp
qed

lemma idx_less:
  assumes "0 \<le> r" "r < rws" "0 \<le> c" "c < cls"
  shows "r * cls + c < rws * (cls::int)"
proof -
  have "r + 1 \<le> rws" using assms by simp
  then have "(r + 1) * cls \<le> rws * cls" using assms by (intro mult_right_mono) auto
  then show ?thesis using assms by (simp add: algebra_simps)
qed

lemma inside_idx:
  "is_inside g r c \<Longrightarrow> 0 \<le> r * cols g + c \<and> r * cols g + c < rows g * cols g"
  by (simp add: is_inside_def idx_nonneg idx_less)

section \<open>Walking the parent links\<close>

lemma parent_path_cells: "parent_path parent i p \<Longrightarrow> path_cells parent i = Some p"
proof (induction rule: parent_path.induct)
  case (root i)
  have "path_cells parent (-2) = Some []" by (subst path_cells.simps) simp
  with root show ?case by (subst path_cells.simps) simp
next
  case (link i p)
  then show ?case by (subst path_cells.simps) simp
qed

lemma parent_path_reconstruct:
  "parent_path parent i p \<Longrightarrow> reconstruct_loop g parent cls i = Some (mark_path g cls p)"
proof (induction arbitrary: g rule: parent_path.induct)
  case (root i)
  have "reconstruct_loop g' parent cls (-2) = Some g'" for g'
    by (subst reconstruct_loop.simps) simp
  with root show ?case by (subst reconstruct_loop.simps) (simp add: mark_path_def)
next
  case (link i p)
  then show ?case by (subst reconstruct_loop.simps) (simp add: mark_path_def)
qed

lemma parent_path_hd: "parent_path parent i p \<Longrightarrow> p \<noteq> [] \<and> hd p = i"
  by (induction rule: parent_path.induct) auto

lemma parent_path_set: "parent_path parent i p \<Longrightarrow> j \<in> set p \<Longrightarrow> 0 \<le> j \<and> parent j \<noteq> -1"
  by (induction rule: parent_path.induct) auto

lemma parent_path_last: "parent_path parent i p \<Longrightarrow> parent (last p) = -2"
  by (induction rule: parent_path.induct) (auto dest: parent_path_hd)

lemma parent_path_update:
  "parent_path parent i p \<Longrightarrow> parent v = -1 \<Longrightarrow> parent_path (parent(v := u)) i p"
proof (induction rule: parent_path.induct)
  case (root i)
  then show ?case by (auto intro!: parent_path.root)
next
  case (link i p)
  then have "i \<noteq> v" by auto
  with link show ?case by (auto intro!: parent_path.link)
qed

lemma parent_path_unique:
  "parent_path parent i p \<Longrightarrow> parent_path parent i q \<Longrightarrow> p = q"
proof (induction arbitrary: q rule: parent_path.induct)
  case (root i)
  from root.prems show ?case
  proof (cases rule: parent_path.cases)
    case root
    then show ?thesis by simp
  next
    case (link q')
    with root.hyps show ?thesis by simp
  qed
next
  case (link i p)
  note outer = link
  from link.prems show ?case
  proof (cases rule: parent_path.cases)
    case root
    with outer(1) show ?thesis by simp
  next
    case (link q')
    from outer(4)[OF link(4)] link(1) show ?thesis by simp
  qed
qed

lemma parent_path_suffix:
  "parent_path parent i p \<Longrightarrow> j \<in> set p \<Longrightarrow>
     \<exists>q. parent_path parent j q \<and> length q \<le> length p"
proof (induction rule: parent_path.induct)
  case (root i)
  then show ?case by (auto intro: parent_path.root)
next
  case (link i p)
  show ?case
  proof (cases "j = i")
    case True
    then show ?thesis using parent_path.link[OF link.hyps] by auto
  next
    case False
    with link.prems have "j \<in> set p" by simp
    from link.IH[OF this] show ?thesis by auto
  qed
qed

lemma parent_path_distinct: "parent_path parent i p \<Longrightarrow> distinct p"
proof (induction rule: parent_path.induct)
  case (root i)
  then show ?case by simp
next
  case (link i p)
  have "i \<notin> set p"
  proof
    assume "i \<in> set p"
    from parent_path_suffix[OF link.hyps(3) this]
    obtain q where q: "parent_path parent i q" "length q \<le> length p" by auto
    from parent_path_unique[OF q(1) parent_path.link[OF link.hyps]] q(2)
    show False by simp
  qed
  with link.IH show ?case by simp
qed

lemma parent_path_below:
  assumes "\<forall>i. 0 \<le> i \<and> i < n \<longrightarrow> parent i < n"
  shows "parent_path parent i p \<Longrightarrow> i < n \<Longrightarrow> j \<in> set p \<Longrightarrow> j < n"
proof (induction rule: parent_path.induct)
  case (root i)
  then show ?case by simp
next
  case (link i p)
  from assms link.hyps(2) link.prems(1) have "parent i < n" by simp
  with link show ?case by auto
qed

lemma distinct_offsets_length:
  assumes "distinct p" "\<forall>j\<in>set p. 0 \<le> j \<and> j < (n::int)" "0 \<le> n"
  shows "int (length p) \<le> n"
proof -
  have "set p \<subseteq> {0..<n}" using assms(2) by auto
  then have "card (set p) \<le> card {0..<n}" by (intro card_mono) auto
  with assms(1,3) show ?thesis by (simp add: distinct_card)
qed

lemma mark_path_marks:
  assumes "cols g = cls" "0 < cls" "\<forall>j\<in>set p. 0 \<le> j"
  shows "marks (mark_path g cls p) i = (if i \<in> set p then marks g i OR M_PATH else marks g i)
         \<and> cols (mark_path g cls p) = cls \<and> rows (mark_path g cls p) = rows g
         \<and> cells (mark_path g cls p) = cells g"
  using assms
proof (induction p arbitrary: g)
  case Nil
  then show ?case by (simp add: mark_path_def)
next
  case (Cons j p)
  let ?g = "mark_or g (j sdiv cls) (j smod cls) M_PATH"
  have j: "0 \<le> j" using Cons.prems by simp
  have "(j sdiv cls) * cls + j smod cls = j"
    using j Cons.prems(2) by (simp add: sdiv_nonneg smod_nonneg)
  then have m: "marks ?g = (marks g)(j := marks g j OR M_PATH)"
    using Cons.prems(1) by (simp add: mark_or_def)
  have c: "cols ?g = cls" "rows ?g = rows g" "cells ?g = cells g"
    using Cons.prems(1) by (simp_all add: mark_or_def)
  have step: "mark_path g cls (j # p) = mark_path ?g cls p" by (simp add: mark_path_def)
  from Cons.IH[OF c(1) Cons.prems(2)] Cons.prems(3)
  have ih: "marks (mark_path ?g cls p) i = (if i \<in> set p then marks ?g i OR M_PATH else marks ?g i)
         \<and> cols (mark_path ?g cls p) = cls \<and> rows (mark_path ?g cls p) = rows ?g
         \<and> cells (mark_path ?g cls p) = cells ?g" by simp
  show ?case unfolding step using ih m c by (simp add: or.assoc)
qed

section \<open>Cells and offsets, array segments\<close>

lemma cell_of_index: "inside g v \<Longrightarrow> cell_of (cols g) (cell_index g v) = v"
  by (simp add: inside_def is_inside_def cell_of_def cell_index_def idx_sdiv idx_smod)

lemma cell_index_inj:
  "inside g u \<Longrightarrow> inside g v \<Longrightarrow> cell_index g u = cell_index g v \<Longrightarrow> u = v"
  by (metis cell_of_index)

lemma cell_index_range:
  "inside g v \<Longrightarrow> 0 \<le> cell_index g v \<and> cell_index g v < rows g * cols g"
  by (simp add: inside_def cell_index_def inside_idx)

lemma inside_positive: "inside g v \<Longrightarrow> 0 < rows g \<and> 0 < cols g"
  by (auto simp: inside_def is_inside_def)

lemma inside_cells_length:
  assumes "distinct xs" "\<forall>v\<in>set xs. inside g v" "0 \<le> rows g * cols g"
  shows "int (length xs) \<le> rows g * cols g"
proof -
  have "inj_on (cell_index g) (set xs)"
  proof (rule inj_onI)
    fix u v assume "u \<in> set xs" "v \<in> set xs" "cell_index g u = cell_index g v"
    with assms(2) show "u = v" using cell_index_inj[of g u v] by blast
  qed
  then have d: "distinct (map (cell_index g) xs)" using assms(1) by (simp add: distinct_map)
  have r: "\<forall>j\<in>set (map (cell_index g) xs). 0 \<le> j \<and> j < rows g * cols g"
    using assms(2) cell_index_range by auto
  from distinct_offsets_length[OF d r assms(3)] show ?thesis by simp
qed

lemma entries_empty: "hi \<le> lo \<Longrightarrow> entries d lo hi = []"
  by (simp add: entries_def)

lemma entries_length: "length (entries d lo hi) = nat (hi - lo)"
  by (simp add: entries_def)

lemma entries_snoc:
  assumes "lo \<le> hi"
  shows "entries (d(hi := v)) lo (hi + 1) = entries d lo hi @ [v]"
proof -
  have "[lo..hi] = [lo..hi - 1] @ [hi]" using assms by (simp add: upto_rec2)
  then show ?thesis by (simp add: entries_def)
qed

lemma entries_update_above: "hi \<le> i \<Longrightarrow> entries (d(i := v)) lo hi = entries d lo hi"
  by (simp add: entries_def)

lemma entries_last: "lo \<le> hi \<Longrightarrow> entries d lo (hi + 1) = entries d lo hi @ [d hi]"
  using entries_snoc[of lo hi d "d hi"] by simp

lemma entries_first: "lo < hi \<Longrightarrow> entries d lo hi = d lo # entries d (lo + 1) hi"
  by (simp add: entries_def upto_rec1)

lemma entries_append:
  "lo \<le> mid \<Longrightarrow> mid \<le> hi \<Longrightarrow> entries d lo hi = entries d lo mid @ entries d mid hi"
proof (induction "nat (hi - mid)" arbitrary: hi)
  case 0
  then have "hi = mid" by simp
  then show ?case by (simp add: entries_empty)
next
  case (Suc n)
  then have lt: "mid < hi" "lo < hi" by linarith+
  then have "mid \<le> hi - 1" "n = nat (hi - 1 - mid)" using Suc.hyps(2) by linarith+
  from Suc.hyps(1)[OF this(2) Suc.prems(1) this(1)]
  have ih: "entries d lo (hi - 1) = entries d lo mid @ entries d mid (hi - 1)" .
  have a: "entries d lo hi = entries d lo (hi - 1) @ [d (hi - 1)]"
    using entries_last[of lo "hi - 1" d] lt by simp
  have b: "entries d mid hi = entries d mid (hi - 1) @ [d (hi - 1)]"
    using entries_last[of mid "hi - 1" d] lt by simp
  show ?case by (simp add: a b ih)
qed

lemma entries_member: "lo \<le> i \<Longrightarrow> i < hi \<Longrightarrow> d i \<in> set (entries d lo hi)"
  by (simp add: entries_def)

lemma entries_memberD: "v \<in> set (entries d lo hi) \<Longrightarrow> \<exists>i. lo \<le> i \<and> i < hi \<and> d i = v"
  by (auto simp: entries_def)

section \<open>The queue of solve_bfs never wraps\<close>

lemma bfs_shape_tail:
  assumes "bfs_shape g st s"
  shows "q_tail (b_queue s) \<le> rows g * cols g"
proof -
  from assms have d: "distinct (queue_hist (b_queue s))"
    and i: "\<forall>v\<in>set (queue_hist (b_queue s)). inside g v"
    and st: "inside g st" and h: "0 \<le> q_tail (b_queue s)"
    by (auto simp: bfs_shape_def discovered_def)
  have "0 \<le> rows g * cols g" using inside_positive[OF st] by simp
  from inside_cells_length[OF d i this] h show ?thesis
    by (simp add: queue_hist_def entries_length)
qed

lemma discovered_update:
  assumes "inside g n" "w \<noteq> -1"
  shows "discovered g (parent(cell_index g n := w)) = insert n (discovered g parent)"
  using assms cell_index_inj[of g _ n] by (auto simp: discovered_def)

lemma bfs_init_shape:
  assumes "inside g (sr, sc)"
  shows "bfs_shape g (sr, sc) (bfs_init g sr sc)"
    and "queue_hist (b_queue (bfs_init g sr sc)) = [(sr, sc)]"
    and "q_head (b_queue (bfs_init g sr sc)) = 0"
    and "\<not> b_done (bfs_init g sr sc)"
    and "discovered g (b_parent (bfs_init g sr sc)) = {(sr, sc)}"
proof -
  let ?n = "rows g * cols g"
  have pos: "0 < ?n" using inside_positive[OF assms] by simp
  have q: "b_queue (bfs_init g sr sc)
           = \<lparr>q_data = (\<lambda>_. (0, 0))(0 := (sr, sc)), q_head = 0, q_tail = 1, q_cap = ?n + 5\<rparr>"
    using pos by (simp add: bfs_init_def Let_def queue_push_def queue_create_def)
  have p: "b_parent (bfs_init g sr sc) = (fill (\<lambda>_. 0) (-1) ?n)(cell_index g (sr, sc) := -2)"
    by (simp add: bfs_init_def Let_def cell_index_def)
  have h: "queue_hist (b_queue (bfs_init g sr sc)) = [(sr, sc)]"
    using entries_snoc[of 0 0 "\<lambda>_. (0, 0)" "(sr, sc)"]
    by (simp add: q queue_hist_def entries_empty)
  have "discovered g (fill (\<lambda>_. 0) (-1) ?n) = {}"
    using cell_index_range by (auto simp: discovered_def fill_def)
  then have d: "discovered g (b_parent (bfs_init g sr sc)) = {(sr, sc)}"
    unfolding p using discovered_update[OF assms, of "-2"] by simp
  have gs: "grid_same g (b_grid (bfs_init g sr sc))"
    by (simp add: bfs_init_def Let_def grid_same_def mark_or_def)
  show "bfs_shape g (sr, sc) (bfs_init g sr sc)"
    unfolding bfs_shape_def using gs h d assms by (simp add: q p)
  show "queue_hist (b_queue (bfs_init g sr sc)) = [(sr, sc)]" by (rule h)
  show "q_head (b_queue (bfs_init g sr sc)) = 0" by (simp add: q)
  show "\<not> b_done (bfs_init g sr sc)" by (simp add: bfs_init_def Let_def)
  show "discovered g (b_parent (bfs_init g sr sc)) = {(sr, sc)}" by (rule d)
qed

text \<open>What one round of the inner \<open>for\<close> does, in terms of cells.\<close>

lemma bfs_visit_effect:
  fixes k :: nat
  assumes sh: "bfs_shape g st s" and u: "inside g u"
  defines "n \<equiv> nbr u k" and "s' \<equiv> bfs_visit (fst u) (snd u) s k"
  shows "if is_open g n \<and> n \<notin> discovered g (b_parent s)
         then b_parent s' = (b_parent s)(cell_index g n := cell_index g u)
              \<and> queue_hist (b_queue s') = queue_hist (b_queue s) @ [n]
              \<and> q_head (b_queue s') = q_head (b_queue s)
              \<and> q_tail (b_queue s') = q_tail (b_queue s) + 1
              \<and> q_cap (b_queue s') = q_cap (b_queue s)
              \<and> b_done s' = b_done s \<and> grid_same g (b_grid s')
         else s' = s"
proof -
  let ?g = "b_grid s" and ?q = "b_queue s"
  let ?nr = "fst u + fst (nbrs4 ! k)" and ?nc = "snd u + snd (nbrs4 ! k)"
  let ?C = "is_inside ?g ?nr ?nc \<and> grid_get ?g ?nr ?nc = 0
            \<and> b_parent s (?nr * cols ?g + ?nc) = -1"
  let ?A = "s\<lparr>b_parent := (b_parent s)(?nr * cols ?g + ?nc := fst u * cols ?g + snd u),
               b_queue := queue_push ?q (?nr, ?nc),
               b_grid := mark_or ?g ?nr ?nc M_FRONT\<rparr>"
  have v: "s' = (if ?C then ?A else s)"
    unfolding s'_def bfs_visit_def Let_def by (rule refl)
  have gs: "rows ?g = rows g" "cols ?g = cols g" "cells ?g = cells g"
    using sh by (simp_all add: bfs_shape_def grid_same_def)
  have n: "n = (?nr, ?nc)" by (simp add: n_def nbr_def)
  have o: "is_open g n = (is_inside ?g ?nr ?nc \<and> grid_get ?g ?nr ?nc = 0)"
    by (simp add: n is_open_def inside_def is_inside_def grid_get_def gs)
  have d: "is_open g n \<Longrightarrow> (n \<notin> discovered g (b_parent s)) = (b_parent s (?nr * cols ?g + ?nc) = -1)"
    by (simp add: n is_open_def discovered_def cell_index_def gs)
  have guard: "?C = (is_open g n \<and> n \<notin> discovered g (b_parent s))"
    using o d by blast
  show ?thesis
  proof (cases "is_open g n \<and> n \<notin> discovered g (b_parent s)")
    case False
    then have "\<not> ?C" using guard by blast
    then have "s' = s" unfolding v by (rule if_not_P)
    with False show ?thesis by simp
  next
    case True
    then have "?C" using guard by blast
    then have s': "s' = ?A" unfolding v by (rule if_P)
    have tl: "q_tail ?q \<le> rows g * cols g" by (rule bfs_shape_tail[OF sh])
    have cap: "q_cap ?q = rows g * cols g + 5" "0 \<le> q_tail ?q"
      using sh by (auto simp: bfs_shape_def)
    have qp: "queue_push ?q n = ?q\<lparr>q_data := (q_data ?q)(q_tail ?q := n), q_tail := q_tail ?q + 1\<rparr>"
      using tl cap by (simp add: queue_push_def Let_def)
    have h: "queue_hist (queue_push ?q n) = queue_hist ?q @ [n]"
      using cap(2) by (simp add: qp queue_hist_def entries_snoc)
    have 1: "b_parent s' = (b_parent s)(cell_index g n := cell_index g u)"
      by (simp add: s' n cell_index_def gs)
    have 2: "b_queue s' = queue_push ?q n" by (simp add: s' n)
    have 3: "b_done s' = b_done s" by (simp add: s')
    have 4: "grid_same g (b_grid s')" using gs by (simp add: s' grid_same_def mark_or_def)
    have "b_parent s' = (b_parent s)(cell_index g n := cell_index g u)
              \<and> queue_hist (b_queue s') = queue_hist (b_queue s) @ [n]
              \<and> q_head (b_queue s') = q_head (b_queue s)
              \<and> q_tail (b_queue s') = q_tail (b_queue s) + 1
              \<and> q_cap (b_queue s') = q_cap (b_queue s)
              \<and> b_done s' = b_done s \<and> grid_same g (b_grid s')"
      using 1 3 4 h by (simp add: 2 qp)
    with True show ?thesis by simp
  qed
qed

lemma bfs_shapeD:
  assumes "bfs_shape g st s"
  shows "grid_same g (b_grid s)"
    and "q_cap (b_queue s) = rows g * cols g + 5"
    and "0 \<le> q_head (b_queue s)"
    and "q_head (b_queue s) \<le> q_tail (b_queue s)"
    and "distinct (queue_hist (b_queue s))"
    and "set (queue_hist (b_queue s)) = discovered g (b_parent s)"
    and "inside g st"
    and "b_parent s (cell_index g st) = -2"
  using assms unfolding bfs_shape_def by blast+

lemma bfs_shapeI:
  assumes "grid_same g (b_grid s)"
    and "q_cap (b_queue s) = rows g * cols g + 5"
    and "0 \<le> q_head (b_queue s)"
    and "q_head (b_queue s) \<le> q_tail (b_queue s)"
    and "distinct (queue_hist (b_queue s))"
    and "set (queue_hist (b_queue s)) = discovered g (b_parent s)"
    and "inside g st"
    and "b_parent s (cell_index g st) = -2"
  shows "bfs_shape g st s"
  using assms unfolding bfs_shape_def by blast

lemma bfs_visit_shape:
  assumes sh: "bfs_shape g st s" and u: "inside g u"
  shows "bfs_shape g st (bfs_visit (fst u) (snd u) s k)"
proof -
  let ?n = "nbr u k" and ?s = "bfs_visit (fst u) (snd u) s k"
  note e = bfs_visit_effect[OF sh u, of k]
  note D = bfs_shapeD[OF sh]
  show ?thesis
  proof (cases "is_open g ?n \<and> ?n \<notin> discovered g (b_parent s)")
    case False
    with e have "?s = s" by simp
    with sh show ?thesis by simp
  next
    case True
    with e have p: "b_parent ?s = (b_parent s)(cell_index g ?n := cell_index g u)"
      and h: "queue_hist (b_queue ?s) = queue_hist (b_queue s) @ [?n]"
      and q: "q_head (b_queue ?s) = q_head (b_queue s)"
        "q_tail (b_queue ?s) = q_tail (b_queue s) + 1" "q_cap (b_queue ?s) = q_cap (b_queue s)"
      and g: "grid_same g (b_grid ?s)" by simp_all
    have ni: "inside g ?n" using True by (simp add: is_open_def)
    have un: "cell_index g u \<noteq> -1" using cell_index_range[OF u] by simp
    have d: "discovered g (b_parent ?s) = insert ?n (discovered g (b_parent s))"
      unfolding p by (rule discovered_update[OF ni un])
    have "st \<in> discovered g (b_parent s)" using D(7,8) by (simp add: discovered_def)
    with True have stn: "st \<noteq> ?n" by blast
    then have "cell_index g st \<noteq> cell_index g ?n"
      using cell_index_inj[OF D(7) ni] by blast
    then have ps: "b_parent ?s (cell_index g st) = -2"
      using D(8) by (simp add: p)
    have nh: "?n \<notin> set (queue_hist (b_queue s))" using True D(6) by simp
    show ?thesis
    proof (rule bfs_shapeI)
      show "grid_same g (b_grid ?s)" by (rule g)
      show "q_cap (b_queue ?s) = rows g * cols g + 5" using D(2) q by simp
      show "0 \<le> q_head (b_queue ?s)" using D(3) q by simp
      show "q_head (b_queue ?s) \<le> q_tail (b_queue ?s)" using D(4) q by simp
      show "distinct (queue_hist (b_queue ?s))" using D(5) nh by (simp add: h)
      show "set (queue_hist (b_queue ?s)) = discovered g (b_parent ?s)" using D(6) by (simp add: h d)
      show "inside g st" by (rule D(7))
      show "b_parent ?s (cell_index g st) = -2" by (rule ps)
    qed
  qed
qed

section \<open>The loop of solve_bfs\<close>

lemma entries_prefix:
  assumes "entries d' 0 t' = entries d 0 t @ xs" "0 \<le> h" "h \<le> t" "t \<le> t'"
  shows "entries d' 0 h = entries d 0 h"
proof -
  have a: "entries d' 0 t' = entries d' 0 h @ entries d' h t'"
    using assms by (intro entries_append) auto
  have b: "entries d 0 t = entries d 0 h @ entries d h t"
    using assms by (intro entries_append) auto
  have "entries d' 0 h @ entries d' h t' = entries d 0 h @ (entries d h t @ xs)"
    using assms(1) unfolding a b by simp
  moreover have "length (entries d' 0 h) = length (entries d 0 h)"
    by (simp add: entries_length)
  ultimately show ?thesis by (metis append_eq_append_conv)
qed

text \<open>The first part of the loop body, in terms of cells.\<close>

lemma bfs_take_effect:
  assumes sh: "bfs_shape g st s" and run: "bfs_running s"
  defines "u \<equiv> q_data (b_queue s) (q_head (b_queue s))"
  defines "s1 \<equiv> snd (bfs_take s)"
  shows "fst (bfs_take s) = u"
    and "inside g u"
    and "u \<in> set (queue_hist (b_queue s))"
    and "queue_done (b_queue s1) = queue_done (b_queue s) @ [u]"
    and "b_parent s1 = b_parent s"
    and "queue_hist (b_queue s1) = queue_hist (b_queue s)"
    and "q_head (b_queue s1) = q_head (b_queue s) + 1"
    and "q_tail (b_queue s1) = q_tail (b_queue s)"
    and "b_done s1 = b_done s"
    and "bfs_shape g st s1"
proof -
  let ?q = "b_queue s"
  note D = bfs_shapeD[OF sh]
  have lt: "q_head ?q < q_tail ?q"
    using run D(4) by (simp add: bfs_running_def queue_empty_def)
  have tl: "q_tail ?q \<le> rows g * cols g" by (rule bfs_shape_tail[OF sh])
  have pop: "queue_pop ?q = (u, ?q\<lparr>q_head := q_head ?q + 1\<rparr>)"
    using lt tl D(2) by (simp add: queue_pop_def Let_def u_def)
  show f: "fst (bfs_take s) = u"
    by (simp add: bfs_take_def pop Let_def)
  have q1: "b_queue s1 = ?q\<lparr>q_head := q_head ?q + 1\<rparr>"
    by (simp add: s1_def bfs_take_def pop Let_def)
  show m: "u \<in> set (queue_hist ?q)"
    unfolding queue_hist_def u_def using D(3) lt by (intro entries_member) auto
  then show i: "inside g u" using D(6) by (simp add: discovered_def)
  show "queue_done (b_queue s1) = queue_done ?q @ [u]"
    using D(3) by (simp add: q1 queue_done_def u_def entries_last)
  show p: "b_parent s1 = b_parent s"
    by (simp add: s1_def bfs_take_def pop Let_def)
  show h: "queue_hist (b_queue s1) = queue_hist ?q"
    by (simp add: q1 queue_hist_def)
  show hd: "q_head (b_queue s1) = q_head ?q + 1" by (simp add: q1)
  show t: "q_tail (b_queue s1) = q_tail ?q" by (simp add: q1)
  show "b_done s1 = b_done s"
    by (simp add: s1_def bfs_take_def pop Let_def)
  have g: "grid_same g (b_grid s1)"
    using D(1) by (simp add: s1_def bfs_take_def pop Let_def grid_same_def mark_or_def mark_andnot_def)
  show "bfs_shape g st s1"
  proof (rule bfs_shapeI)
    show "grid_same g (b_grid s1)" by (rule g)
    show "q_cap (b_queue s1) = rows g * cols g + 5" using D(2) by (simp add: q1)
    show "0 \<le> q_head (b_queue s1)" using D(3) by (simp add: q1)
    show "q_head (b_queue s1) \<le> q_tail (b_queue s1)" using lt by (simp add: q1)
    show "distinct (queue_hist (b_queue s1))" using D(5) by (simp add: h)
    show "set (queue_hist (b_queue s1)) = discovered g (b_parent s1)" using D(6) by (simp add: h p)
    show "inside g st" by (rule D(7))
    show "b_parent s1 (cell_index g st) = -2" using D(8) by (simp add: p)
  qed
qed

lemma bfs_body_unfold:
  "bfs_body n er ec s =
     (if fst (bfs_take s) = (er, ec) then (snd (bfs_take s))\<lparr>b_done := True\<rparr>
      else foldl (bfs_visit (fst (fst (bfs_take s))) (snd (fst (bfs_take s))))
             (snd (bfs_take s)) (take n [0, 1, 2, 3]))"
  by (cases "bfs_take s") (auto simp: bfs_body_def Let_def)

text \<open>Any number of rounds of the inner \<open>for\<close> keeps the shape, and only adds at the tail.\<close>

lemma bfs_visits_shape:
  assumes "bfs_shape g st s" "inside g u"
  shows "bfs_shape g st (foldl (bfs_visit (fst u) (snd u)) s ks)
         \<and> q_head (b_queue (foldl (bfs_visit (fst u) (snd u)) s ks)) = q_head (b_queue s)
         \<and> b_done (foldl (bfs_visit (fst u) (snd u)) s ks) = b_done s
         \<and> (\<exists>xs. queue_hist (b_queue (foldl (bfs_visit (fst u) (snd u)) s ks))
                  = queue_hist (b_queue s) @ xs)"
  using assms(1)
proof (induction ks arbitrary: s)
  case Nil
  then show ?case by simp
next
  case (Cons k ks)
  let ?s = "bfs_visit (fst u) (snd u) s k"
  have sh: "bfs_shape g st ?s" by (rule bfs_visit_shape[OF Cons.prems assms(2)])
  have e: "q_head (b_queue ?s) = q_head (b_queue s) \<and> b_done ?s = b_done s
           \<and> (\<exists>xs. queue_hist (b_queue ?s) = queue_hist (b_queue s) @ xs)"
    using bfs_visit_effect[OF Cons.prems assms(2), of k]
    by (cases "is_open g (nbr u k) \<and> nbr u k \<notin> discovered g (b_parent s)") simp_all
  from Cons.IH[OF sh] e show ?case by auto
qed

lemma bfs_body_shape:
  fixes n :: nat and er ec :: int
  assumes sh: "bfs_shape g st s" and run: "bfs_running s"
  defines "u \<equiv> q_data (b_queue s) (q_head (b_queue s))"
  defines "s' \<equiv> bfs_body n er ec s"
  shows "bfs_shape g st s'"
    and "q_head (b_queue s') = q_head (b_queue s) + 1"
    and "b_done s' = (u = (er, ec))"
    and "queue_done (b_queue s') = queue_done (b_queue s) @ [u]"
proof -
  let ?s1 = "snd (bfs_take s)"
  note T = bfs_take_effect[OF sh run, folded u_def]
  note D1 = bfs_shapeD[OF T(10)]
  have nd: "\<not> b_done s" using run by (simp add: bfs_running_def)
  have "bfs_shape g st s' \<and> q_head (b_queue s') = q_head (b_queue s) + 1
        \<and> b_done s' = (u = (er, ec))
        \<and> queue_done (b_queue s') = queue_done (b_queue s) @ [u]"
  proof (cases "u = (er, ec)")
    case True
    then have s': "s' = ?s1\<lparr>b_done := True\<rparr>"
      by (simp add: s'_def bfs_body_unfold T(1))
    have "bfs_shape g st s'"
      using D1 by (intro bfs_shapeI) (simp_all add: s')
    then show ?thesis using True T by (simp add: s' queue_done_def)
  next
    case False
    define ks :: "nat list" where "ks = take n [0, 1, 2, 3]"
    define f where "f = foldl (bfs_visit (fst u) (snd u)) ?s1 ks"
    from False have s': "s' = f"
      by (simp add: s'_def bfs_body_unfold T(1) f_def ks_def)
    note V = bfs_visits_shape[OF T(10) T(2), of ks, folded f_def]
    from V obtain xs where xs: "queue_hist (b_queue f) = queue_hist (b_queue ?s1) @ xs" by blast
    have hd: "q_head (b_queue f) = q_head (b_queue s) + 1" using V T(7) by simp
    have le: "q_tail (b_queue ?s1) \<le> q_tail (b_queue f)"
    proof -
      have "length (queue_hist (b_queue ?s1)) \<le> length (queue_hist (b_queue f))"
        by (simp add: xs)
      moreover have "0 \<le> q_tail (b_queue ?s1)" using D1(3,4) by simp
      moreover have "0 \<le> q_tail (b_queue f)"
        using V bfs_shapeD(3,4)[of g st f] by simp
      ultimately show ?thesis by (simp add: queue_hist_def entries_length)
    qed
    have "queue_done (b_queue f) = queue_done (b_queue ?s1)"
      unfolding queue_done_def hd T(7)[symmetric]
      using entries_prefix[OF xs[unfolded queue_hist_def] D1(3) D1(4) le] by simp
    then show ?thesis using V T nd False by (simp add: s')
  qed
  then show "bfs_shape g st s'"
    and "q_head (b_queue s') = q_head (b_queue s) + 1"
    and "b_done s' = (u = (er, ec))"
    and "queue_done (b_queue s') = queue_done (b_queue s) @ [u]" by blast+
qed

lemma bfs_body_unseen:
  assumes sh: "bfs_shape g st s" and run: "bfs_running s" and un: "bfs_unseen e s"
  shows "bfs_unseen e (bfs_body n (fst e) (snd e) s)"
proof -
  note B = bfs_body_shape[OF sh run, of n "fst e" "snd e"]
  have nd: "\<not> b_done s" using run by (simp add: bfs_running_def)
  show ?thesis
    using B(3,4) un nd unfolding bfs_unseen_def by auto
qed

lemma bfs_init_unseen: "inside g (sr, sc) \<Longrightarrow> bfs_unseen e (bfs_init g sr sc)"
  using bfs_init_shape(3)[of g sr sc]
  by (simp add: bfs_unseen_def queue_done_def entries_empty)

text \<open>The loop returns when every iteration keeps an invariant and lowers a measure.\<close>

lemma bfs_loop_total:
  assumes step: "\<And>s. I s \<Longrightarrow> bfs_running s \<Longrightarrow> I (bfs_step er ec s) \<and> m (bfs_step er ec s) < (m s :: nat)"
    and init: "I s"
  shows "\<exists>t. bfs_loop er ec s = Some t \<and> I t \<and> \<not> bfs_running t"
  using init
proof (induction "m s" arbitrary: s rule: less_induct)
  case less
  show ?case
  proof (cases "bfs_running s")
    case True
    from step[OF less.prems True]
    have i: "I (bfs_step er ec s)" and l: "m (bfs_step er ec s) < m s" by simp_all
    from less.hyps[OF l i] obtain t where
      t: "bfs_loop er ec (bfs_step er ec s) = Some t" "I t" "\<not> bfs_running t" by blast
    have "bfs_loop er ec s = Some t"
      using True t(1) by (subst bfs_loop.simps) simp
    with t show ?thesis by blast
  next
    case False
    then have "bfs_loop er ec s = Some s" by (subst bfs_loop.simps) simp
    with False less.prems show ?thesis by blast
  qed
qed

lemma bfs_reach_invariant:
  assumes "bfs_reach g sr sc er ec s"
    and "I (bfs_init g sr sc)"
    and "\<And>s. I s \<Longrightarrow> bfs_running s \<Longrightarrow> I (bfs_step er ec s)"
  shows "I s"
  using assms by (induction rule: bfs_reach.induct) auto

lemma bfs_reach_shape:
  assumes "inside g (sr, sc)" "bfs_reach g sr sc er ec s"
  shows "bfs_shape g (sr, sc) s \<and> bfs_unseen (er, ec) s"
proof (rule bfs_reach_invariant[OF assms(2), where I = "\<lambda>s. bfs_shape g (sr, sc) s \<and> bfs_unseen (er, ec) s"])
  show "bfs_shape g (sr, sc) (bfs_init g sr sc) \<and> bfs_unseen (er, ec) (bfs_init g sr sc)"
    using bfs_init_shape(1)[OF assms(1)] bfs_init_unseen[OF assms(1)] by simp
next
  fix s assume "bfs_shape g (sr, sc) s \<and> bfs_unseen (er, ec) s" "bfs_running s"
  then show "bfs_shape g (sr, sc) (bfs_step er ec s) \<and> bfs_unseen (er, ec) (bfs_step er ec s)"
    using bfs_body_shape(1)[of g "(sr, sc)" s 4 er ec] bfs_body_unseen[of g "(sr, sc)" s "(er, ec)" 4]
    by (simp add: bfs_step_def)
qed

lemma bfs_search_shape:
  assumes st: "inside g (sr, sc)"
  shows "\<exists>t. bfs_search g sr sc er ec = Some t \<and> \<not> bfs_running t
             \<and> bfs_shape g (sr, sc) t \<and> bfs_unseen (er, ec) t
             \<and> bfs_reach g sr sc er ec t"
proof -
  let ?I = "\<lambda>s. bfs_shape g (sr, sc) s \<and> bfs_unseen (er, ec) s \<and> bfs_reach g sr sc er ec s"
  let ?m = "\<lambda>s. nat (rows g * cols g - q_head (b_queue s))"
  have step: "?I (bfs_step er ec s) \<and> ?m (bfs_step er ec s) < ?m s"
    if "?I s" "bfs_running s" for s
  proof -
    from that have sh: "bfs_shape g (sr, sc) s" and un: "bfs_unseen (er, ec) s"
      and re: "bfs_reach g sr sc er ec s" by simp_all
    note B = bfs_body_shape[OF sh that(2), of 4 er ec, folded bfs_step_def]
    have u: "bfs_unseen (er, ec) (bfs_step er ec s)"
      using bfs_body_unseen[OF sh that(2) un, of 4] by (simp add: bfs_step_def)
    have lt: "q_head (b_queue s) < q_tail (b_queue s)"
      using that(2) bfs_shapeD(4)[OF sh] by (simp add: bfs_running_def queue_empty_def)
    with bfs_shape_tail[OF sh] have "?m (bfs_step er ec s) < ?m s" using B(2) by simp
    with B(1) u bfs_reach_step[OF re that(2)] show ?thesis by simp
  qed
  have init: "?I (bfs_init g sr sc)"
    using bfs_init_shape(1)[OF st] bfs_init_unseen[OF st] bfs_reach_init by simp
  from bfs_loop_total[where I = ?I and m = ?m, OF step init]
  show ?thesis unfolding bfs_search_def by blast
qed

section \<open>The stack of solve_dfs never fills\<close>

lemma mark_visit_set:
  fixes m :: mark_t
  defines "a \<equiv> m AND NOT M_FRONT"
  shows "(if a AND M_VISIT = 0 then a OR M_VISIT else a) AND M_VISIT \<noteq> 0"
  by (simp add: M_VISIT_def)

lemma mark_nonzero: "(m :: mark_t) AND M_VISIT \<noteq> 0 \<Longrightarrow> m \<noteq> M_NONE"
  by (auto simp: M_NONE_def)

lemma mark_front: "(M_NONE OR M_FRONT) \<noteq> M_NONE" "(M_NONE OR M_FRONT) AND M_VISIT = 0"
  by (simp_all add: M_NONE_def M_FRONT_def M_VISIT_def)

lemma finite_inside: "finite {v. inside g v}"
proof -
  have "{v. inside g v} \<subseteq> {0..<rows g} \<times> {0..<cols g}"
    by (auto simp: inside_def is_inside_def)
  then show ?thesis by (rule finite_subset) simp
qed

lemma finite_undiscovered: "finite (undiscovered g parent)"
  by (rule finite_subset[OF _ finite_inside[of g]]) (auto simp: undiscovered_def)

lemma undiscovered_update:
  assumes "inside g n" "parent (cell_index g n) = -1" "w \<noteq> -1"
  shows "card (undiscovered g (parent(cell_index g n := w))) + 1 = card (undiscovered g parent)"
proof -
  have "undiscovered g (parent(cell_index g n := w)) = undiscovered g parent - {n}"
    using assms cell_index_inj[of g _ n] by (auto simp: undiscovered_def)
  moreover have "n \<in> undiscovered g parent" using assms by (simp add: undiscovered_def)
  ultimately show ?thesis
    using finite_undiscovered[of g parent]
    by (simp add: card_Diff_singleton card_gt_0_iff Suc_leI) (metis card_gt_0_iff empty_iff Suc_pred)
qed

lemma dfs_shapeD:
  assumes "dfs_shape g st s"
  shows "grid_same g (d_grid s)"
    and "s_cap (d_stack s) = rows g * cols g + 5"
    and "0 \<le> s_top (d_stack s)"
    and "distinct (stack_list (d_stack s))"
    and "set (stack_list (d_stack s)) \<subseteq> discovered g (d_parent s)"
    and "\<And>v. inside g v \<Longrightarrow>
            (marks (d_grid s) (cell_index g v) \<noteq> M_NONE) = (v \<in> discovered g (d_parent s))"
    and "\<And>v. v \<in> discovered g (d_parent s) \<Longrightarrow>
            v \<in> set (stack_list (d_stack s))
            \<or> marks (d_grid s) (cell_index g v) AND M_VISIT \<noteq> 0"
    and "inside g st"
    and "d_parent s (cell_index g st) = -2"
  using assms unfolding dfs_shape_def by blast+

lemma dfs_shapeI:
  assumes "grid_same g (d_grid s)"
    and "s_cap (d_stack s) = rows g * cols g + 5"
    and "0 \<le> s_top (d_stack s)"
    and "distinct (stack_list (d_stack s))"
    and "set (stack_list (d_stack s)) \<subseteq> discovered g (d_parent s)"
    and "\<And>v. inside g v \<Longrightarrow>
            (marks (d_grid s) (cell_index g v) \<noteq> M_NONE) = (v \<in> discovered g (d_parent s))"
    and "\<And>v. v \<in> discovered g (d_parent s) \<Longrightarrow>
            v \<in> set (stack_list (d_stack s))
            \<or> marks (d_grid s) (cell_index g v) AND M_VISIT \<noteq> 0"
    and "inside g st"
    and "d_parent s (cell_index g st) = -2"
  shows "dfs_shape g st s"
  using assms unfolding dfs_shape_def by blast

lemma dfs_shape_top:
  assumes "dfs_shape g st s"
  shows "s_top (d_stack s) \<le> rows g * cols g"
proof -
  note D = dfs_shapeD[OF assms]
  have i: "\<forall>v\<in>set (stack_list (d_stack s)). inside g v"
    using D(5) by (auto simp: discovered_def)
  have "0 \<le> rows g * cols g" using inside_positive[OF D(8)] by simp
  from inside_cells_length[OF D(4) i this] D(3) show ?thesis
    by (simp add: stack_list_def entries_length)
qed

lemma dfs_init_shape:
  assumes "inside g (sr, sc)"
  shows "dfs_shape g (sr, sc) (dfs_init g sr sc k)"
    and "inside g e \<Longrightarrow> dfs_unseen g e (dfs_init g sr sc k)"
    and "discovered g (d_parent (dfs_init g sr sc k)) = {(sr, sc)}"
proof -
  let ?n = "rows g * cols g" and ?s = "dfs_init g sr sc k"
  let ?i = "cell_index g (sr, sc)"
  have pos: "0 < ?n" using inside_positive[OF assms] by simp
  have r: "0 \<le> ?i" "?i < ?n" using cell_index_range[OF assms] by simp_all
  have q: "d_stack ?s
           = \<lparr>s_data = (\<lambda>_. (0, 0))(0 := (sr, sc)), s_top = 1, s_cap = ?n + 5\<rparr>"
    using pos by (simp add: dfs_init_def Let_def stack_push_def stack_create_def)
  have p: "d_parent ?s = (fill (\<lambda>_. 0) (-1) ?n)(?i := -2)"
    by (simp add: dfs_init_def Let_def cell_index_def)
  have m: "marks (d_grid ?s) = (fill (marks g) M_NONE ?n)(?i := M_NONE OR M_FRONT)"
    using r by (simp add: dfs_init_def Let_def cell_index_def mark_or_def fill_def)
  have h: "stack_list (d_stack ?s) = [(sr, sc)]"
    using entries_snoc[of 0 0 "\<lambda>_. (0, 0)" "(sr, sc)"]
    by (simp add: q stack_list_def entries_empty)
  have "discovered g (fill (\<lambda>_. 0) (-1) ?n) = {}"
    using cell_index_range by (auto simp: discovered_def fill_def)
  then have d: "discovered g (d_parent ?s) = {(sr, sc)}"
    unfolding p using discovered_update[OF assms, of "-2"] by simp
  have gs: "grid_same g (d_grid ?s)"
    by (simp add: dfs_init_def Let_def grid_same_def mark_or_def)
  have mk: "(marks (d_grid ?s) (cell_index g v) \<noteq> M_NONE) = (v = (sr, sc))" if "inside g v" for v
    using cell_index_range[OF that] cell_index_inj[OF that assms] mark_front(1)
    by (auto simp: m fill_def)
  show "dfs_shape g (sr, sc) ?s"
  proof (rule dfs_shapeI)
    show "grid_same g (d_grid ?s)" by (rule gs)
    show "s_cap (d_stack ?s) = ?n + 5" by (simp add: q)
    show "0 \<le> s_top (d_stack ?s)" by (simp add: q)
    show "distinct (stack_list (d_stack ?s))" by (simp add: h)
    show "set (stack_list (d_stack ?s)) \<subseteq> discovered g (d_parent ?s)" by (simp add: h d)
    show "(marks (d_grid ?s) (cell_index g v) \<noteq> M_NONE) = (v \<in> discovered g (d_parent ?s))"
      if "inside g v" for v using mk[OF that] by (simp add: d)
    show "v \<in> set (stack_list (d_stack ?s)) \<or> marks (d_grid ?s) (cell_index g v) AND M_VISIT \<noteq> 0"
      if "v \<in> discovered g (d_parent ?s)" for v using that by (simp add: d h)
    show "inside g (sr, sc)" by (rule assms)
    show "d_parent ?s (cell_index g (sr, sc)) = -2" by (simp add: p)
  qed
  have "marks (d_grid ?s) j AND M_VISIT = 0" if "0 \<le> j" "j < ?n" for j
    using that mark_front(2) by (auto simp: m fill_def M_NONE_def)
  then show "dfs_unseen g e ?s" if "inside g e"
    using cell_index_range[OF that] by (simp add: dfs_unseen_def)
  show "discovered g (d_parent ?s) = {(sr, sc)}" by (rule d)
qed

text \<open>What one round of the inner \<open>for\<close> of \<open>solve_dfs\<close> does, in terms of cells.\<close>

lemma dfs_visit_effect:
  fixes k :: nat
  assumes sh: "dfs_shape g st s" and u: "inside g u"
  defines "n \<equiv> nbr u k" and "s' \<equiv> dfs_visit (fst u) (snd u) s k"
  shows "if is_open g n \<and> n \<notin> discovered g (d_parent s)
         then d_parent s' = (d_parent s)(cell_index g n := cell_index g u)
              \<and> stack_list (d_stack s') = stack_list (d_stack s) @ [n]
              \<and> s_top (d_stack s') = s_top (d_stack s) + 1
              \<and> s_cap (d_stack s') = s_cap (d_stack s)
              \<and> marks (d_grid s') = (marks (d_grid s))(cell_index g n := M_NONE OR M_FRONT)
              \<and> d_done s' = d_done s \<and> d_rand s' = d_rand s \<and> grid_same g (d_grid s')
         else s' = s"
proof -
  let ?g = "d_grid s" and ?q = "d_stack s"
  let ?nr = "fst u + fst (nbrs4 ! k)" and ?nc = "snd u + snd (nbrs4 ! k)"
  let ?C = "is_inside ?g ?nr ?nc \<and> grid_get ?g ?nr ?nc = 0
            \<and> marks ?g (?nr * cols ?g + ?nc) = M_NONE"
  let ?A = "s\<lparr>d_parent := (if d_parent s (?nr * cols ?g + ?nc) = -1
                              then (d_parent s)(?nr * cols ?g + ?nc := fst u * cols ?g + snd u)
                              else d_parent s),
               d_stack := stack_push ?q (?nr, ?nc),
               d_grid := mark_or ?g ?nr ?nc M_FRONT\<rparr>"
  note D = dfs_shapeD[OF sh]
  have v: "s' = (if ?C then ?A else s)"
    unfolding s'_def dfs_visit_def Let_def by (rule refl)
  have gs: "rows ?g = rows g" "cols ?g = cols g" "cells ?g = cells g"
    using D(1) by (simp_all add: grid_same_def)
  have n: "n = (?nr, ?nc)" by (simp add: n_def nbr_def)
  have ix: "cell_index g n = ?nr * cols ?g + ?nc" by (simp add: n cell_index_def gs)
  have o: "is_open g n = (is_inside ?g ?nr ?nc \<and> grid_get ?g ?nr ?nc = 0)"
    by (simp add: n is_open_def inside_def is_inside_def grid_get_def gs)
  have d: "(n \<notin> discovered g (d_parent s)) = (marks ?g (?nr * cols ?g + ?nc) = M_NONE)"
    if "is_open g n"
    using D(6)[of n] that unfolding ix[symmetric] by (auto simp: is_open_def)
  have guard: "?C = (is_open g n \<and> n \<notin> discovered g (d_parent s))"
    using o d by blast
  show ?thesis
  proof (cases "is_open g n \<and> n \<notin> discovered g (d_parent s)")
    case False
    then have "\<not> ?C" using guard by blast
    then have "s' = s" unfolding v by (rule if_not_P)
    with False show ?thesis by simp
  next
    case True
    then have "?C" using guard by blast
    then have s': "s' = ?A" unfolding v by (rule if_P)
    have un: "d_parent s (?nr * cols ?g + ?nc) = -1" "marks ?g (?nr * cols ?g + ?nc) = M_NONE"
      using True \<open>?C\<close> unfolding ix[symmetric] by (auto simp: discovered_def is_open_def)
    have tl: "s_top ?q \<le> rows g * cols g" by (rule dfs_shape_top[OF sh])
    have qp: "stack_push ?q n = ?q\<lparr>s_data := (s_data ?q)(s_top ?q := n), s_top := s_top ?q + 1\<rparr>"
      using tl D(2) by (simp add: stack_push_def)
    have h: "stack_list (stack_push ?q n) = stack_list ?q @ [n]"
      using D(3) by (simp add: qp stack_list_def entries_snoc)
    have 1: "d_parent s' = (d_parent s)(cell_index g n := cell_index g u)"
      using un(1) by (simp add: s' ix) (simp add: cell_index_def gs)
    have 2: "d_stack s' = stack_push ?q n" by (simp add: s' n)
    have 3: "d_done s' = d_done s" "d_rand s' = d_rand s" by (simp_all add: s')
    have 4: "grid_same g (d_grid s')" using gs by (simp add: s' grid_same_def mark_or_def)
    have 5: "marks (d_grid s') = (marks ?g)(cell_index g n := M_NONE OR M_FRONT)"
      using un(2) by (simp add: s' mark_or_def ix)
    have "d_parent s' = (d_parent s)(cell_index g n := cell_index g u)
              \<and> stack_list (d_stack s') = stack_list (d_stack s) @ [n]
              \<and> s_top (d_stack s') = s_top (d_stack s) + 1
              \<and> s_cap (d_stack s') = s_cap (d_stack s)
              \<and> marks (d_grid s') = (marks (d_grid s))(cell_index g n := M_NONE OR M_FRONT)
              \<and> d_done s' = d_done s \<and> d_rand s' = d_rand s \<and> grid_same g (d_grid s')"
      using 1 3 4 5 h by (simp add: 2 qp)
    with True show ?thesis by simp
  qed
qed

lemma dfs_visit_shape:
  assumes sh: "dfs_shape g st s" and u: "inside g u"
  shows "dfs_shape g st (dfs_visit (fst u) (snd u) s k)"
    and "dfs_measure g (dfs_visit (fst u) (snd u) s k) = dfs_measure g s"
    and "dfs_unseen g e s \<Longrightarrow> dfs_unseen g e (dfs_visit (fst u) (snd u) s k)"
    and "d_done (dfs_visit (fst u) (snd u) s k) = d_done s"
proof -
  let ?n = "nbr u k" and ?s = "dfs_visit (fst u) (snd u) s k"
  note e = dfs_visit_effect[OF sh u, of k]
  note D = dfs_shapeD[OF sh]
  have "dfs_shape g st ?s \<and> dfs_measure g ?s = dfs_measure g s
        \<and> (dfs_unseen g e s \<longrightarrow> dfs_unseen g e ?s) \<and> d_done ?s = d_done s"
  proof (cases "is_open g ?n \<and> ?n \<notin> discovered g (d_parent s)")
    case False
    with e have "?s = s" by simp
    with sh show ?thesis by simp
  next
    case True
    with e have p: "d_parent ?s = (d_parent s)(cell_index g ?n := cell_index g u)"
      and h: "stack_list (d_stack ?s) = stack_list (d_stack s) @ [?n]"
      and q: "s_top (d_stack ?s) = s_top (d_stack s) + 1" "s_cap (d_stack ?s) = s_cap (d_stack s)"
      and m: "marks (d_grid ?s) = (marks (d_grid s))(cell_index g ?n := M_NONE OR M_FRONT)"
      and dn: "d_done ?s = d_done s"
      and g: "grid_same g (d_grid ?s)" by simp_all
    have ni: "inside g ?n" using True by (simp add: is_open_def)
    have un: "cell_index g u \<noteq> -1" using cell_index_range[OF u] by simp
    have d: "discovered g (d_parent ?s) = insert ?n (discovered g (d_parent s))"
      unfolding p by (rule discovered_update[OF ni un])
    have "st \<in> discovered g (d_parent s)" using D(8,9) by (simp add: discovered_def)
    with True have stn: "st \<noteq> ?n" by blast
    then have "cell_index g st \<noteq> cell_index g ?n"
      using cell_index_inj[OF D(8) ni] by blast
    then have ps: "d_parent ?s (cell_index g st) = -2"
      using D(9) by (simp add: p)
    have nh: "?n \<notin> set (stack_list (d_stack s))" using True D(5) by blast
    have pn: "d_parent s (cell_index g ?n) = -1" using True ni by (simp add: discovered_def)
    have sh': "dfs_shape g st ?s"
    proof (rule dfs_shapeI)
      show "grid_same g (d_grid ?s)" by (rule g)
      show "s_cap (d_stack ?s) = rows g * cols g + 5" using D(2) q by simp
      show "0 \<le> s_top (d_stack ?s)" using D(3) q by simp
      show "distinct (stack_list (d_stack ?s))" using D(4) nh by (simp add: h)
      show "set (stack_list (d_stack ?s)) \<subseteq> discovered g (d_parent ?s)"
        using D(5) by (auto simp: h d)
      show "(marks (d_grid ?s) (cell_index g v) \<noteq> M_NONE) = (v \<in> discovered g (d_parent ?s))"
        if "inside g v" for v
      proof (cases "v = ?n")
        case True
        then show ?thesis using mark_front(1) by (simp add: m d)
      next
        case False
        then have "cell_index g v \<noteq> cell_index g ?n" using cell_index_inj[OF that ni] by blast
        then show ?thesis using D(6)[OF that] False by (simp add: m d)
      qed
      show "v \<in> set (stack_list (d_stack ?s)) \<or> marks (d_grid ?s) (cell_index g v) AND M_VISIT \<noteq> 0"
        if "v \<in> discovered g (d_parent ?s)" for v
      proof (cases "v = ?n")
        case True
        then show ?thesis by (simp add: h)
      next
        case False
        with that have vd: "v \<in> discovered g (d_parent s)" by (simp add: d)
        then have "inside g v" by (simp add: discovered_def)
        then have "cell_index g v \<noteq> cell_index g ?n"
          using cell_index_inj[OF _ ni] False by blast
        then show ?thesis using D(7)[OF vd] by (auto simp: m h)
      qed
      show "inside g st" by (rule D(8))
      show "d_parent ?s (cell_index g st) = -2" by (rule ps)
    qed
    have ms: "dfs_measure g ?s = dfs_measure g s"
      using undiscovered_update[of g ?n "d_parent s" "cell_index g u", OF ni pn un] D(3)
      unfolding dfs_measure_def p q by (simp add: nat_add_distrib)
    have us: "dfs_unseen g e ?s" if "dfs_unseen g e s"
      using that mark_front(2) unfolding dfs_unseen_def dn m by auto
    show ?thesis using sh' ms us dn by blast
  qed
  then show "dfs_shape g st ?s" "dfs_measure g ?s = dfs_measure g s"
    "dfs_unseen g e s \<Longrightarrow> dfs_unseen g e ?s" "d_done ?s = d_done s" by blast+
qed

section \<open>The loop of solve_dfs\<close>

lemma dfs_take_effect:
  assumes sh: "dfs_shape g st s" and run: "dfs_running s"
  defines "u \<equiv> s_data (d_stack s) (s_top (d_stack s) - 1)"
  defines "s1 \<equiv> snd (dfs_take s)"
  shows "fst (dfs_take s) = u"
    and "inside g u"
    and "u \<in> discovered g (d_parent s)"
    and "stack_list (d_stack s) = stack_list (d_stack s1) @ [u]"
    and "d_parent s1 = d_parent s"
    and "s_top (d_stack s1) = s_top (d_stack s) - 1"
    and "d_done s1 = d_done s"
    and "d_rand s1 = d_rand s"
    and "dfs_shape g st s1"
    and "\<exists>m. marks (d_grid s1) = (marks (d_grid s))(cell_index g u := m) \<and> m AND M_VISIT \<noteq> 0"
proof -
  let ?q = "d_stack s" and ?g = "d_grid s"
  note D = dfs_shapeD[OF sh]
  have gs: "rows ?g = rows g" "cols ?g = cols g" "cells ?g = cells g"
    using D(1) by (simp_all add: grid_same_def)
  have lt: "0 < s_top ?q"
    using run D(3) by (simp add: dfs_running_def stack_empty_def)
  have pop: "stack_pop ?q = (u, ?q\<lparr>s_top := s_top ?q - 1\<rparr>)"
    by (simp add: stack_pop_def u_def)
  show f: "fst (dfs_take s) = u"
    by (simp add: dfs_take_def pop Let_def)
  have q1: "d_stack s1 = ?q\<lparr>s_top := s_top ?q - 1\<rparr>"
    by (simp add: s1_def dfs_take_def pop Let_def)
  show sl: "stack_list ?q = stack_list (d_stack s1) @ [u]"
    using entries_last[of 0 "s_top ?q - 1" "s_data ?q"] lt
    by (simp add: q1 stack_list_def u_def)
  then have "u \<in> set (stack_list ?q)" by simp
  then show ud: "u \<in> discovered g (d_parent s)" using D(5) by blast
  then show i: "inside g u" by (simp add: discovered_def)
  show p: "d_parent s1 = d_parent s"
    by (simp add: s1_def dfs_take_def pop Let_def)
  show tp: "s_top (d_stack s1) = s_top ?q - 1" by (simp add: q1)
  show dn: "d_done s1 = d_done s"
    by (simp add: s1_def dfs_take_def pop Let_def)
  show "d_rand s1 = d_rand s"
    by (simp add: s1_def dfs_take_def pop Let_def)
  have g: "grid_same g (d_grid s1)"
    using D(1) by (simp add: s1_def dfs_take_def pop Let_def grid_same_def mark_or_def mark_andnot_def)
  define a where "a = marks ?g (cell_index g u) AND NOT M_FRONT"
  define m where "m = (if a AND M_VISIT = 0 then a OR M_VISIT else a)"
  have mv: "m AND M_VISIT \<noteq> 0" unfolding m_def a_def by (rule mark_visit_set)
  have mk: "marks (d_grid s1) = (marks ?g)(cell_index g u := m)"
    by (auto simp: s1_def dfs_take_def pop Let_def mark_or_def mark_andnot_def m_def a_def
        cell_index_def gs)
  show "\<exists>m. marks (d_grid s1) = (marks ?g)(cell_index g u := m) \<and> m AND M_VISIT \<noteq> 0"
    using mk mv by blast
  have du: "distinct (stack_list (d_stack s1))" "u \<notin> set (stack_list (d_stack s1))"
    using D(4) unfolding sl by simp_all
  show "dfs_shape g st s1"
  proof (rule dfs_shapeI)
    show "grid_same g (d_grid s1)" by (rule g)
    show "s_cap (d_stack s1) = rows g * cols g + 5" using D(2) by (simp add: q1)
    show "0 \<le> s_top (d_stack s1)" using lt by (simp add: q1)
    show "distinct (stack_list (d_stack s1))" by (rule du(1))
    show "set (stack_list (d_stack s1)) \<subseteq> discovered g (d_parent s1)"
      using D(5) unfolding sl p by simp
    show "(marks (d_grid s1) (cell_index g v) \<noteq> M_NONE) = (v \<in> discovered g (d_parent s1))"
      if "inside g v" for v
    proof (cases "v = u")
      case True
      then show ?thesis using mark_nonzero[OF mv] ud by (simp add: mk p)
    next
      case False
      then have "cell_index g v \<noteq> cell_index g u" using cell_index_inj[OF that i] by blast
      then show ?thesis using D(6)[OF that] by (simp add: mk p)
    qed
    show "v \<in> set (stack_list (d_stack s1)) \<or> marks (d_grid s1) (cell_index g v) AND M_VISIT \<noteq> 0"
      if "v \<in> discovered g (d_parent s1)" for v
    proof (cases "v = u")
      case True
      then show ?thesis using mv by (simp add: mk)
    next
      case False
      from that have vd: "v \<in> discovered g (d_parent s)" by (simp add: p)
      then have "inside g v" by (simp add: discovered_def)
      then have "cell_index g v \<noteq> cell_index g u" using cell_index_inj[OF _ i] False by blast
      then show ?thesis using D(7)[OF vd] False unfolding sl by (auto simp: mk)
    qed
    show "inside g st" by (rule D(8))
    show "d_parent s1 (cell_index g st) = -2" using D(9) by (simp add: p)
  qed
qed

lemma dfs_body_unfold:
  "dfs_body rnd n er ec s =
     (if fst (dfs_take s) = (er, ec) then (snd (dfs_take s))\<lparr>d_done := True\<rparr>
      else foldl (dfs_visit (fst (fst (dfs_take s))) (snd (fst (dfs_take s))))
             ((snd (dfs_take s))\<lparr>d_rand := snd (shuffle_ints rnd [0, 1, 2, 3] 4 (d_rand (snd (dfs_take s))))\<rparr>)
             (take n (fst (shuffle_ints rnd [0, 1, 2, 3] 4 (d_rand (snd (dfs_take s)))))))"
  by (cases "dfs_take s"; cases "shuffle_ints rnd [0, 1, 2, 3] 4 (d_rand (snd (dfs_take s)))")
     (auto simp: dfs_body_def Let_def)

lemma dfs_visits_shape:
  assumes "dfs_shape g st s" "inside g u"
  shows "dfs_shape g st (foldl (dfs_visit (fst u) (snd u)) s ks)
         \<and> dfs_measure g (foldl (dfs_visit (fst u) (snd u)) s ks) = dfs_measure g s
         \<and> (dfs_unseen g e s \<longrightarrow> dfs_unseen g e (foldl (dfs_visit (fst u) (snd u)) s ks))
         \<and> d_done (foldl (dfs_visit (fst u) (snd u)) s ks) = d_done s"
  using assms(1)
proof (induction ks arbitrary: s)
  case Nil
  then show ?case by simp
next
  case (Cons k ks)
  note V1 = dfs_visit_shape(1)[OF Cons.prems assms(2), of k]
  note V2 = dfs_visit_shape(2)[OF Cons.prems assms(2), of k]
  note V3 = dfs_visit_shape(3)[OF Cons.prems assms(2), of e k]
  note V4 = dfs_visit_shape(4)[OF Cons.prems assms(2), of k]
  from Cons.IH[OF V1] V2 V3 V4 show ?case by simp
qed

lemma dfs_rand_shape:
  "dfs_shape g st (s\<lparr>d_rand := k\<rparr>) = dfs_shape g st s"
  "dfs_measure g (s\<lparr>d_rand := k\<rparr>) = dfs_measure g s"
  "dfs_unseen g e (s\<lparr>d_rand := k\<rparr>) = dfs_unseen g e s"
  by (simp_all add: dfs_shape_def dfs_measure_def dfs_unseen_def)

lemma dfs_body_shape:
  fixes n :: nat and er ec :: int and rnd :: "nat \<Rightarrow> nat"
  assumes sh: "dfs_shape g st s" and run: "dfs_running s"
    and un: "dfs_unseen g (er, ec) s" and e: "inside g (er, ec)"
  defines "s' \<equiv> dfs_body rnd n er ec s"
  shows "dfs_shape g st s'"
    and "dfs_measure g s' < dfs_measure g s"
    and "dfs_unseen g (er, ec) s'"
proof -
  let ?s1 = "snd (dfs_take s)"
  define u where "u = s_data (d_stack s) (s_top (d_stack s) - 1)"
  note T = dfs_take_effect[OF sh run, folded u_def]
  have nd: "\<not> d_done s" using run by (simp add: dfs_running_def)
  have lt: "0 < s_top (d_stack s)"
    using run dfs_shapeD(3)[OF sh] by (simp add: dfs_running_def stack_empty_def)
  have m1: "dfs_measure g ?s1 < dfs_measure g s"
    using lt unfolding dfs_measure_def T(5) T(6) by simp
  have "dfs_shape g st s' \<and> dfs_measure g s' < dfs_measure g s \<and> dfs_unseen g (er, ec) s'"
  proof (cases "u = (er, ec)")
    case True
    then have s': "s' = ?s1\<lparr>d_done := True\<rparr>"
      by (simp add: s'_def dfs_body_unfold T(1))
    have "dfs_shape g st s'" "dfs_measure g s' = dfs_measure g ?s1"
      using T(9) by (simp_all add: s' dfs_shape_def dfs_measure_def)
    then show ?thesis using m1 by (simp add: s' dfs_unseen_def)
  next
    case False
    define k' where "k' = snd (shuffle_ints rnd [0, 1, 2, 3] 4 (d_rand ?s1))"
    define ks where "ks = take n (fst (shuffle_ints rnd [0, 1, 2, 3] 4 (d_rand ?s1)))"
    define s2 where "s2 = ?s1\<lparr>d_rand := k'\<rparr>"
    from False have s': "s' = foldl (dfs_visit (fst u) (snd u)) s2 ks"
      by (simp add: s'_def dfs_body_unfold T(1) k'_def ks_def s2_def)
    from T(10) obtain m where m: "marks (d_grid ?s1) = (marks (d_grid s))(cell_index g u := m)"
      by blast
    have "cell_index g u \<noteq> cell_index g (er, ec)"
      using cell_index_inj[OF T(2) e] False by blast
    then have u1: "dfs_unseen g (er, ec) ?s1"
      using un nd by (simp add: dfs_unseen_def m T(7))
    have sh2: "dfs_shape g st s2" and u2: "dfs_unseen g (er, ec) s2"
      and m2: "dfs_measure g s2 = dfs_measure g ?s1"
      using T(9) u1 by (simp_all add: s2_def dfs_rand_shape)
    from dfs_visits_shape[OF sh2 T(2), of ks "(er, ec)"] u2 m2 m1
    show ?thesis by (simp add: s')
  qed
  then show "dfs_shape g st s'" "dfs_measure g s' < dfs_measure g s" "dfs_unseen g (er, ec) s'"
    by blast+
qed

lemma dfs_loop_total:
  assumes step: "\<And>s. I s \<Longrightarrow> dfs_running s
                 \<Longrightarrow> I (dfs_step rnd er ec s) \<and> m (dfs_step rnd er ec s) < (m s :: nat)"
    and init: "I s"
  shows "\<exists>t. dfs_loop rnd er ec s = Some t \<and> I t \<and> \<not> dfs_running t"
  using init
proof (induction "m s" arbitrary: s rule: less_induct)
  case less
  show ?case
  proof (cases "dfs_running s")
    case True
    from step[OF less.prems True]
    have i: "I (dfs_step rnd er ec s)" and l: "m (dfs_step rnd er ec s) < m s" by simp_all
    from less.hyps[OF l i] obtain t where
      t: "dfs_loop rnd er ec (dfs_step rnd er ec s) = Some t" "I t" "\<not> dfs_running t" by blast
    have "dfs_loop rnd er ec s = Some t"
      using True t(1) by (subst dfs_loop.simps) simp
    with t show ?thesis by blast
  next
    case False
    then have "dfs_loop rnd er ec s = Some s" by (subst dfs_loop.simps) simp
    with False less.prems show ?thesis by blast
  qed
qed

lemma dfs_reach_invariant:
  assumes "dfs_reach rnd k g sr sc er ec s"
    and "I (dfs_init g sr sc k)"
    and "\<And>s. I s \<Longrightarrow> dfs_running s \<Longrightarrow> I (dfs_step rnd er ec s)"
  shows "I s"
  using assms by (induction rule: dfs_reach.induct) auto

lemma dfs_reach_shape:
  assumes "inside g (sr, sc)" "inside g (er, ec)" "dfs_reach rnd k g sr sc er ec s"
  shows "dfs_shape g (sr, sc) s \<and> dfs_unseen g (er, ec) s"
proof (rule dfs_reach_invariant[OF assms(3),
        where I = "\<lambda>s. dfs_shape g (sr, sc) s \<and> dfs_unseen g (er, ec) s"])
  show "dfs_shape g (sr, sc) (dfs_init g sr sc k) \<and> dfs_unseen g (er, ec) (dfs_init g sr sc k)"
    using dfs_init_shape[OF assms(1)] assms(2) by simp
next
  fix s assume a: "dfs_shape g (sr, sc) s \<and> dfs_unseen g (er, ec) s" "dfs_running s"
  then have sh: "dfs_shape g (sr, sc) s" and un: "dfs_unseen g (er, ec) s" by simp_all
  note B = dfs_body_shape[OF sh a(2) un assms(2), where n = 4 and rnd = rnd, folded dfs_step_def]
  from B(1,3)
  show "dfs_shape g (sr, sc) (dfs_step rnd er ec s) \<and> dfs_unseen g (er, ec) (dfs_step rnd er ec s)"
    by simp
qed

lemma dfs_search_shape:
  assumes st: "inside g (sr, sc)" and en: "inside g (er, ec)"
  shows "\<exists>t. dfs_search rnd k g sr sc er ec = Some t \<and> \<not> dfs_running t
             \<and> dfs_shape g (sr, sc) t \<and> dfs_unseen g (er, ec) t
             \<and> dfs_reach rnd k g sr sc er ec t"
proof -
  let ?I = "\<lambda>s. dfs_shape g (sr, sc) s \<and> dfs_unseen g (er, ec) s \<and> dfs_reach rnd k g sr sc er ec s"
  have step: "?I (dfs_step rnd er ec s) \<and> dfs_measure g (dfs_step rnd er ec s) < dfs_measure g s"
    if "?I s" "dfs_running s" for s
  proof -
    from that have sh: "dfs_shape g (sr, sc) s" and un: "dfs_unseen g (er, ec) s"
      and re: "dfs_reach rnd k g sr sc er ec s" by simp_all
    note B = dfs_body_shape[OF sh that(2) un en, where n = 4 and rnd = rnd, folded dfs_step_def]
    from B dfs_reach_step[OF re that(2)] show ?thesis by simp
  qed
  have init: "?I (dfs_init g sr sc k)"
    using dfs_init_shape[OF st] en dfs_reach_init by simp
  from dfs_loop_total[where I = ?I and m = "dfs_measure g", OF step init]
  show ?thesis unfolding dfs_search_def by blast
qed

section \<open>Routes over open cells\<close>

lemma adjacent_nbr: "k < 4 \<Longrightarrow> adjacent u (nbr u k)"
proof -
  assume "k < 4"
  then have "k = 0 \<or> k = 1 \<or> k = 2 \<or> k = 3" by linarith
  then show ?thesis by (auto simp: adjacent_def nbr_def nbrs4_def)
qed

lemma adjacent_is_nbr:
  assumes "adjacent u v"
  shows "\<exists>k<4. v = nbr u k"
proof -
  obtain a b where u: "u = (a, b)" by (cases u)
  obtain c d where v: "v = (c, d)" by (cases v)
  from assms have "(c = a - 1 \<and> d = b) \<or> (c = a + 1 \<and> d = b)
                 \<or> (c = a \<and> d = b - 1) \<or> (c = a \<and> d = b + 1)"
    unfolding adjacent_def u v by (simp add: abs_if split: if_splits) linarith
  then consider "v = nbr u 0" | "v = nbr u 1" | "v = nbr u 2" | "v = nbr u 3"
    unfolding u v nbr_def nbrs4_def by auto
  then show ?thesis
  proof cases
    case 1 then show ?thesis by (intro exI[of _ 0]) simp
  next
    case 2 then show ?thesis by (intro exI[of _ 1]) simp
  next
    case 3 then show ?thesis by (intro exI[of _ 2]) simp
  next
    case 4 then show ?thesis by (intro exI[of _ 3]) simp
  qed
qed

lemma open_path_nonempty: "open_path g p \<Longrightarrow> p \<noteq> []"
  by (cases p) auto

lemma open_path_cons:
  "open_path g p \<Longrightarrow> is_open g n \<Longrightarrow> adjacent (hd p) n \<Longrightarrow> open_path g (n # p)"
  by (cases p) auto

lemma open_path_all_open: "open_path g p \<Longrightarrow> v \<in> set p \<Longrightarrow> is_open g v"
  by (induction g p rule: open_path.induct) auto

lemma route_nonempty: "is_route g s v p \<Longrightarrow> p \<noteq> []"
  by (auto simp: is_route_def dest: open_path_nonempty)

lemma route_start: "is_open g s \<Longrightarrow> is_route g s s [s]"
  by (simp add: is_route_def)

lemma route_cons:
  "is_route g s u p \<Longrightarrow> is_open g n \<Longrightarrow> adjacent u n \<Longrightarrow> is_route g s n (n # p)"
  using open_path_nonempty[of g p] by (auto simp: is_route_def open_path_cons)

lemma route_single: "is_route g s v [w] \<Longrightarrow> v = s"
  by (auto simp: is_route_def)

lemma route_uncons:
  assumes "is_route g s v (w # u # p)"
  shows "is_route g s u (u # p) \<and> adjacent u v \<and> is_open g v \<and> w = v"
  using assms by (auto simp: is_route_def)

lemma route_ends_open:
  assumes "is_route g s v p"
  shows "is_open g v \<and> is_open g s"
proof -
  from assms have o: "open_path g p" and h: "hd p = v" "last p = s"
    by (simp_all add: is_route_def)
  have "p \<noteq> []" by (rule open_path_nonempty[OF o])
  then have "v \<in> set p" "s \<in> set p" using h hd_in_set last_in_set by blast+
  then show ?thesis using open_path_all_open[OF o] by blast
qed

lemma min_steps_le: "is_route g s v p \<Longrightarrow> min_steps g s v < length p"
proof -
  assume r: "is_route g s v p"
  then obtain n where n: "length p = Suc n" using route_nonempty[OF r] by (cases p) auto
  have "min_steps g s v \<le> n"
    unfolding min_steps_def using r n by (intro Least_le) blast
  with n show ?thesis by simp
qed

lemma min_steps_route:
  assumes "reachable g s v"
  shows "\<exists>p. is_route g s v p \<and> length p = Suc (min_steps g s v)"
proof -
  from assms obtain p where r: "is_route g s v p" unfolding reachable_def by blast
  then obtain n where n: "length p = Suc n" using route_nonempty[OF r] by (cases p) auto
  with r have "\<exists>n. \<exists>p. is_route g s v p \<and> length p = Suc n" by blast
  then show ?thesis unfolding min_steps_def by (rule LeastI_ex)
qed

lemma min_steps_start: "is_open g s \<Longrightarrow> min_steps g s s = 0"
  using min_steps_le[OF route_start, of g s] by simp

lemma min_steps_zero: "reachable g s v \<Longrightarrow> min_steps g s v = 0 \<Longrightarrow> v = s"
proof -
  assume "reachable g s v" "min_steps g s v = 0"
  with min_steps_route[of g s v] obtain p where p: "is_route g s v p" "length p = 1" by auto
  then obtain w where "p = [w]" by (cases p) auto
  with p(1) show ?thesis using route_single by blast
qed

lemma min_steps_step:
  assumes "reachable g s u" "is_open g n" "adjacent u n"
  shows "reachable g s n" and "min_steps g s n \<le> min_steps g s u + 1"
proof -
  from min_steps_route[OF assms(1)] obtain p where
    p: "is_route g s u p" "length p = Suc (min_steps g s u)" by blast
  from route_cons[OF p(1) assms(2,3)] have r: "is_route g s n (n # p)" .
  then show "reachable g s n" unfolding reachable_def by blast
  from min_steps_le[OF r] p(2) show "min_steps g s n \<le> min_steps g s u + 1" by simp
qed

lemma min_steps_pred:
  assumes "reachable g s v" "min_steps g s v = Suc m"
  shows "\<exists>u. reachable g s u \<and> min_steps g s u = m \<and> adjacent u v \<and> is_open g v"
proof -
  from min_steps_route[OF assms(1)] assms(2) obtain p where
    p: "is_route g s v p" "length p = Suc (Suc m)" by auto
  then obtain w u q where q: "p = w # u # q" by (cases p; cases "tl p") auto
  from route_uncons[OF p(1)[unfolded q]]
  have r: "is_route g s u (u # q)" and a: "adjacent u v" and o: "is_open g v" by simp_all
  have re: "reachable g s u" using r unfolding reachable_def by blast
  have "min_steps g s u \<le> m" using min_steps_le[OF r] p(2) q by simp
  moreover have "Suc m \<le> min_steps g s u + 1"
    using min_steps_step(2)[OF re o a] assms(2) by simp
  ultimately have "min_steps g s u = m" by simp
  with re a o show ?thesis by blast
qed

text \<open>A closed set of cells that holds the start holds every cell that can be reached.\<close>

lemma closed_reaches:
  assumes c: "closed_cells g P parent" and d: "discovered g parent \<subseteq> P" and s: "s \<in> P"
  shows "is_route g s v p \<Longrightarrow> v \<in> P"
proof (induction p arbitrary: v)
  case Nil
  then show ?case using route_nonempty by blast
next
  case (Cons w p)
  show ?case
  proof (cases p)
    case Nil
    with Cons.prems s show ?thesis using route_single by blast
  next
    case (Cons u q)
    from route_uncons[OF Cons.prems[unfolded Cons]]
    have r: "is_route g s u p" and a: "adjacent u v" and o: "is_open g v"
      by (simp_all add: Cons)
    from Cons.IH[OF r] have "u \<in> P" .
    with c a o d show ?thesis unfolding closed_cells_def by blast
  qed
qed

section \<open>Parent links follow routes\<close>

lemma parent_routesD:
  assumes "parent_routes L g st parent" "v \<in> discovered g parent"
  obtains p where "parent_path parent (cell_index g v) p"
    "is_route g st v (map (cell_of (cols g)) p)" "L v (length p)"
  using assms unfolding parent_routes_def by blast

lemma parent_routes_init:
  assumes o: "is_open g st" and l: "L st 1"
    and d: "discovered g parent = {st}" and p: "parent (cell_index g st) = -2"
  shows "parent_routes L g st parent"
  unfolding parent_routes_def
proof (intro allI impI)
  fix v assume "v \<in> discovered g parent"
  with d have v: "v = st" by simp
  have i: "inside g st" using o by (simp add: is_open_def)
  have pp: "parent_path parent (cell_index g st) [cell_index g st]"
    using p cell_index_range[OF i] by (intro parent_path.root) simp_all
  have "is_route g st st (map (cell_of (cols g)) [cell_index g st])"
    using o by (simp add: cell_of_index[OF i] route_start)
  with pp l show "\<exists>p. parent_path parent (cell_index g v) p
             \<and> is_route g st v (map (cell_of (cols g)) p) \<and> L v (length p)"
    unfolding v by (intro exI[of _ "[cell_index g st]"]) simp
qed

lemma parent_routes_extend:
  assumes r: "parent_routes L g st parent"
    and u: "u \<in> discovered g parent"
    and n: "is_open g n" "n \<notin> discovered g parent" "adjacent u n"
    and l: "\<And>m. L u m \<Longrightarrow> L n (Suc m)"
  shows "parent_routes L g st (parent(cell_index g n := cell_index g u))"
  unfolding parent_routes_def
proof (intro allI impI)
  let ?parent = "parent(cell_index g n := cell_index g u)"
  fix v assume v: "v \<in> discovered g ?parent"
  have ni: "inside g n" using n(1) by (simp add: is_open_def)
  have ui: "inside g u" using u by (simp add: discovered_def)
  have pn: "parent (cell_index g n) = -1" using n(2) ni by (simp add: discovered_def)
  have un: "cell_index g u \<noteq> -1" using cell_index_range[OF ui] by simp
  have d: "discovered g ?parent = insert n (discovered g parent)"
    by (rule discovered_update[OF ni un])
  from parent_routesD[OF r u] obtain pu where pu: "parent_path parent (cell_index g u) pu"
    "is_route g st u (map (cell_of (cols g)) pu)" "L u (length pu)" by blast
  show "\<exists>p. parent_path ?parent (cell_index g v) p
             \<and> is_route g st v (map (cell_of (cols g)) p) \<and> L v (length p)"
  proof (cases "v = n")
    case True
    have "parent_path ?parent (cell_index g u) pu" by (rule parent_path_update[OF pu(1) pn])
    then have pp: "parent_path ?parent (cell_index g n) (cell_index g n # pu)"
      using cell_index_range[OF ni] cell_index_range[OF ui]
      by (intro parent_path.link) simp_all
    have "is_route g st n (n # map (cell_of (cols g)) pu)"
      by (rule route_cons[OF pu(2) n(1) n(3)])
    then have "is_route g st n (map (cell_of (cols g)) (cell_index g n # pu))"
      by (simp add: cell_of_index[OF ni])
    with pp l[OF pu(3)] show ?thesis unfolding True
      by (intro exI[of _ "cell_index g n # pu"]) simp
  next
    case False
    with v d have "v \<in> discovered g parent" by simp
    from parent_routesD[OF r this] obtain p where p: "parent_path parent (cell_index g v) p"
      "is_route g st v (map (cell_of (cols g)) p)" "L v (length p)" by blast
    from parent_path_update[OF p(1) pn] p(2,3) show ?thesis by blast
  qed
qed

lemma parent_routes_weaken:
  "parent_routes L g st parent \<Longrightarrow> parent_routes any_length g st parent"
  unfolding parent_routes_def any_length_def by blast

section \<open>The parent links of solve_dfs\<close>

lemma shuffle_loop_set:
  "i < length arr \<Longrightarrow> set (fst (shuffle_loop rnd i arr k)) = set arr"
proof (induction i arbitrary: arr k)
  case 0
  then show ?case by simp
next
  case (Suc i)
  let ?j = "rnd k mod (Suc i + 1)"
  let ?arr = "arr[Suc i := arr ! ?j, ?j := arr ! Suc i]"
  have j: "?j < length arr" using Suc.prems by (simp add: less_le_trans[OF mod_less_divisor])
  have s: "set ?arr = set arr" using Suc.prems j by (simp add: set_swap)
  have "i < length ?arr" using Suc.prems by simp
  from Suc.IH[OF this, of "k + 1"] s show ?case by (simp add: Let_def)
qed

lemma shuffle_ints_set: "set (fst (shuffle_ints rnd [0, 1, 2, 3] 4 k)) = {0, 1, 2, 3}"
  using shuffle_loop_set[of 3 "[0, 1, 2, 3]" rnd k] by (simp add: shuffle_ints_def)

lemma shuffle_ints_bound:
  assumes "j \<in> set (take n (fst (shuffle_ints rnd [0, 1, 2, 3] 4 k)))"
  shows "j < 4"
proof -
  from assms have "j \<in> set (fst (shuffle_ints rnd [0, 1, 2, 3] 4 k))" by (rule in_set_takeD)
  then have "j \<in> {0, 1, 2, 3}" unfolding shuffle_ints_set .
  then show ?thesis by auto
qed

lemma dfs_visit_routes:
  assumes sh: "dfs_shape g st s" and u: "u \<in> discovered g (d_parent s)"
    and r: "parent_routes any_length g st (d_parent s)" and k: "k < 4"
  shows "parent_routes any_length g st (d_parent (dfs_visit (fst u) (snd u) s k))"
    and "discovered g (d_parent s) \<subseteq> discovered g (d_parent (dfs_visit (fst u) (snd u) s k))"
proof -
  let ?n = "nbr u k" and ?s = "dfs_visit (fst u) (snd u) s k"
  have ui: "inside g u" using u by (simp add: discovered_def)
  note e = dfs_visit_effect[OF sh ui, of k]
  have "parent_routes any_length g st (d_parent ?s)
        \<and> discovered g (d_parent s) \<subseteq> discovered g (d_parent ?s)"
  proof (cases "is_open g ?n \<and> ?n \<notin> discovered g (d_parent s)")
    case False
    with e have "?s = s" by simp
    with r show ?thesis by simp
  next
    case True
    with e have p: "d_parent ?s = (d_parent s)(cell_index g ?n := cell_index g u)" by simp
    have ni: "inside g ?n" using True by (simp add: is_open_def)
    have un: "cell_index g u \<noteq> -1" using cell_index_range[OF ui] by simp
    have d: "discovered g (d_parent ?s) = insert ?n (discovered g (d_parent s))"
      unfolding p by (rule discovered_update[OF ni un])
    have "parent_routes any_length g st (d_parent ?s)"
      unfolding p using True adjacent_nbr[OF k, of u]
      by (intro parent_routes_extend[OF r u]) (simp_all add: any_length_def)
    with d show ?thesis by blast
  qed
  then show "parent_routes any_length g st (d_parent ?s)"
    and "discovered g (d_parent s) \<subseteq> discovered g (d_parent ?s)" by blast+
qed

lemma dfs_visits_routes:
  assumes "dfs_shape g st s" "u \<in> discovered g (d_parent s)"
    "parent_routes any_length g st (d_parent s)" "\<forall>k\<in>set ks. k < 4"
  shows "parent_routes any_length g st (d_parent (foldl (dfs_visit (fst u) (snd u)) s ks))"
  using assms
proof (induction ks arbitrary: s)
  case Nil
  then show ?case by simp
next
  case (Cons k ks)
  have ui: "inside g u" using Cons.prems(2) by (simp add: discovered_def)
  have k: "k < 4" using Cons.prems(4) by simp
  note V = dfs_visit_routes[OF Cons.prems(1,2,3) k]
  have sh: "dfs_shape g st (dfs_visit (fst u) (snd u) s k)"
    by (rule dfs_visit_shape(1)[OF Cons.prems(1) ui])
  from Cons.IH[OF sh _ V(1)] V(2) Cons.prems(2,4) show ?case by auto
qed

lemma dfs_body_routes:
  assumes sh: "dfs_shape g st s" and run: "dfs_running s"
    and r: "parent_routes any_length g st (d_parent s)"
  shows "parent_routes any_length g st (d_parent (dfs_body rnd n er ec s))"
proof -
  let ?s1 = "snd (dfs_take s)"
  define u where "u = s_data (d_stack s) (s_top (d_stack s) - 1)"
  note T = dfs_take_effect[OF sh run, folded u_def]
  show ?thesis
  proof (cases "u = (er, ec)")
    case True
    then show ?thesis using r by (simp add: dfs_body_unfold T(1) T(5))
  next
    case False
    define k' where "k' = snd (shuffle_ints rnd [0, 1, 2, 3] 4 (d_rand ?s1))"
    define ks where "ks = take n (fst (shuffle_ints rnd [0, 1, 2, 3] 4 (d_rand ?s1)))"
    define s2 where "s2 = ?s1\<lparr>d_rand := k'\<rparr>"
    from False have s': "dfs_body rnd n er ec s = foldl (dfs_visit (fst u) (snd u)) s2 ks"
      by (simp add: dfs_body_unfold T(1) k'_def ks_def s2_def)
    have sh2: "dfs_shape g st s2" using T(9) by (simp add: s2_def dfs_rand_shape)
    have p2: "d_parent s2 = d_parent s" by (simp add: s2_def T(5))
    have ks: "\<forall>k\<in>set ks. k < 4" unfolding ks_def using shuffle_ints_bound by blast
    from dfs_visits_routes[OF sh2 _ _ ks, of u] T(3) r show ?thesis by (simp add: s' p2)
  qed
qed

lemma dfs_search_routes:
  assumes st: "is_open g (sr, sc)" and en: "inside g (er, ec)"
  shows "\<exists>t. dfs_search rnd k g sr sc er ec = Some t \<and> \<not> dfs_running t
             \<and> dfs_shape g (sr, sc) t \<and> dfs_unseen g (er, ec) t
             \<and> parent_routes any_length g (sr, sc) (d_parent t)"
proof -
  have si: "inside g (sr, sc)" using st by (simp add: is_open_def)
  let ?I = "\<lambda>s. dfs_shape g (sr, sc) s \<and> dfs_unseen g (er, ec) s
                \<and> parent_routes any_length g (sr, sc) (d_parent s)"
  have step: "?I (dfs_step rnd er ec s) \<and> dfs_measure g (dfs_step rnd er ec s) < dfs_measure g s"
    if "?I s" "dfs_running s" for s
  proof -
    from that have sh: "dfs_shape g (sr, sc) s" and un: "dfs_unseen g (er, ec) s"
      and r: "parent_routes any_length g (sr, sc) (d_parent s)" by simp_all
    note B = dfs_body_shape[OF sh that(2) un en, where n = 4 and rnd = rnd, folded dfs_step_def]
    note R = dfs_body_routes[OF sh that(2) r, where n = 4 and rnd = rnd and er = er and ec = ec,
        folded dfs_step_def]
    from B R show ?thesis by simp
  qed
  note d = dfs_init_shape(3)[OF si, of k]
  have init: "?I (dfs_init g sr sc k)"
    using dfs_init_shape(1,2)[OF si] en
      parent_routes_init[OF st _ d dfs_shapeD(9)[OF dfs_init_shape(1)[OF si]], of any_length]
    by (simp add: any_length_def)
  from dfs_loop_total[where I = ?I and m = "dfs_measure g", OF step init]
  show ?thesis unfolding dfs_search_def by blast
qed

section \<open>Breadth-first search discovers cells in the order of their distance\<close>

lemma bfs_head_to_mid:
  assumes "bfs_head g st P (u # R) parent"
  shows "bfs_mid g st P u R parent"
proof -
  from assms have c: "closed_cells g P parent"
    and d: "discovered g parent = P \<union> set (u # R)"
    and s: "sorted (map (min_steps g st) (u # R))"
    and b: "\<forall>q\<in>set (u # R). min_steps g st q \<le> min_steps g st u + 1"
    by (simp_all add: bfs_head_def)
  from s have "sorted (map (min_steps g st) R)"
    and "\<forall>q\<in>set R. min_steps g st u \<le> min_steps g st q" by simp_all
  with c d b show ?thesis unfolding bfs_mid_def by auto
qed

lemma bfs_mid_complete:
  assumes mid: "bfs_mid g st P u R parent" and st: "st \<in> discovered g parent"
  shows "reachable g st w \<Longrightarrow> min_steps g st w \<le> min_steps g st u \<Longrightarrow> w \<in> discovered g parent"
proof (induction "min_steps g st w" arbitrary: w)
  case 0
  then have "w = st" using min_steps_zero by simp
  with st show ?case by simp
next
  case (Suc m)
  from min_steps_pred[OF Suc.prems(1) Suc.hyps(2)[symmetric]] obtain w' where
    w': "reachable g st w'" "min_steps g st w' = m" "adjacent w' w" "is_open g w" by blast
  have lt: "min_steps g st w' < min_steps g st u" using w'(2) Suc.hyps(2) Suc.prems(2) by simp
  then have "w' \<in> discovered g parent" using Suc.hyps(1)[OF w'(2)[symmetric] w'(1)] by simp
  then have "w' \<in> P \<or> w' = u \<or> w' \<in> set R" using mid by (auto simp: bfs_mid_def)
  then show ?case
  proof (elim disjE)
    assume "w' \<in> P"
    then show ?thesis using mid w'(3,4) unfolding bfs_mid_def closed_cells_def by blast
  next
    assume "w' = u"
    with lt show ?thesis by simp
  next
    assume "w' \<in> set R"
    then have "min_steps g st u \<le> min_steps g st w'" using mid by (simp add: bfs_mid_def)
    with lt show ?thesis by simp
  qed
qed

lemma bfs_mid_visit:
  assumes mid: "bfs_mid g st P u R parent"
    and r: "parent_routes (least_length g st) g st parent"
    and st: "st \<in> discovered g parent"
    and n: "is_open g n" "n \<notin> discovered g parent" "adjacent u n"
  defines "parent' \<equiv> parent(cell_index g n := cell_index g u)"
  shows "bfs_mid g st P u (R @ [n]) parent'"
    and "parent_routes (least_length g st) g st parent'"
proof -
  let ?D = "min_steps g st"
  have u: "u \<in> discovered g parent" using mid by (simp add: bfs_mid_def)
  then have ui: "inside g u" by (simp add: discovered_def)
  have ni: "inside g n" using n(1) by (simp add: is_open_def)
  from parent_routesD[OF r u] have ru: "reachable g st u" unfolding reachable_def by blast
  note S = min_steps_step[OF ru n(1) n(3)]
  have "\<not> ?D n \<le> ?D u" using bfs_mid_complete[OF mid st S(1)] n(2) by blast
  with S(2) have dn: "?D n = ?D u + 1" by simp
  show "parent_routes (least_length g st) g st parent'"
    unfolding parent'_def
    by (rule parent_routes_extend[OF r u n]) (simp add: least_length_def dn)
  have un: "cell_index g u \<noteq> -1" using cell_index_range[OF ui] by simp
  have d: "discovered g parent' = insert n (discovered g parent)"
    unfolding parent'_def by (rule discovered_update[OF ni un])
  from mid have c: "closed_cells g P parent"
    and dd: "discovered g parent = P \<union> {u} \<union> set R"
    and s: "sorted (map ?D R)"
    and b: "\<forall>q\<in>set R. ?D u \<le> ?D q \<and> ?D q \<le> ?D u + 1"
    by (simp_all add: bfs_mid_def)
  have c': "closed_cells g P parent'" using c d unfolding closed_cells_def by blast
  have s': "sorted (map ?D (R @ [n]))" using s b dn by (simp add: sorted_append)
  show "bfs_mid g st P u (R @ [n]) parent'"
    unfolding bfs_mid_def using c' d dd s' b dn by auto
qed

lemma bfs_mid_to_head:
  assumes mid: "bfs_mid g st P u R parent"
    and cl: "\<forall>v. is_open g v \<and> adjacent u v \<longrightarrow> v \<in> discovered g parent"
  shows "bfs_head g st (insert u P) R parent"
proof -
  let ?D = "min_steps g st"
  from mid have c: "closed_cells g P parent"
    and dd: "discovered g parent = P \<union> {u} \<union> set R"
    and s: "sorted (map ?D R)"
    and b: "\<forall>q\<in>set R. ?D u \<le> ?D q \<and> ?D q \<le> ?D u + 1"
    by (simp_all add: bfs_mid_def)
  have c': "closed_cells g (insert u P) parent"
    using c cl unfolding closed_cells_def by blast
  have "?D q \<le> ?D (hd R) + 1" if "q \<in> set R" for q
  proof -
    from that have "R \<noteq> []" by auto
    then have "hd R \<in> set R" by simp
    with b that show ?thesis by (meson add_le_mono1 le_trans)
  qed
  with c' dd s show ?thesis unfolding bfs_head_def by auto
qed

subsection \<open>The loop of solve_bfs keeps the order\<close>

lemma queue_hist_split:
  "0 \<le> q_head q \<Longrightarrow> q_head q \<le> q_tail q \<Longrightarrow> queue_hist q = queue_done q @ queue_list q"
  unfolding queue_hist_def queue_done_def queue_list_def by (rule entries_append)

lemma queue_list_snoc:
  assumes h: "queue_hist q' = queue_hist q @ [n]" and hd: "q_head q' = q_head q"
    and r: "0 \<le> q_head q" "q_head q \<le> q_tail q" and t: "q_tail q' = q_tail q + 1"
  shows "queue_list q' = queue_list q @ [n]"
proof -
  have d: "queue_done q' = queue_done q"
    unfolding queue_done_def hd
    using entries_prefix[OF h[unfolded queue_hist_def] r] t by simp
  have "queue_hist q' = queue_done q' @ queue_list q'"
    using r t hd by (intro queue_hist_split) simp_all
  moreover have "queue_hist q = queue_done q @ queue_list q"
    using r by (intro queue_hist_split)
  ultimately show ?thesis using h d by simp
qed

lemma bfs_visit_levels:
  assumes sh: "bfs_shape g st s"
    and mid: "bfs_mid g st P u (queue_list (b_queue s)) (b_parent s)"
    and r: "parent_routes (least_length g st) g st (b_parent s)"
    and k: "k < 4"
  defines "s' \<equiv> bfs_visit (fst u) (snd u) s k"
  shows "bfs_mid g st P u (queue_list (b_queue s')) (b_parent s')"
    and "parent_routes (least_length g st) g st (b_parent s')"
    and "discovered g (b_parent s) \<subseteq> discovered g (b_parent s')"
    and "is_open g (nbr u k) \<Longrightarrow> nbr u k \<in> discovered g (b_parent s')"
    and "bfs_shape g st s'"
proof -
  let ?n = "nbr u k"
  note D = bfs_shapeD[OF sh]
  have u: "u \<in> discovered g (b_parent s)" using mid by (simp add: bfs_mid_def)
  then have ui: "inside g u" by (simp add: discovered_def)
  have st: "st \<in> discovered g (b_parent s)" using D(7,8) by (simp add: discovered_def)
  note e = bfs_visit_effect[OF sh ui, of k, folded s'_def]
  show sh': "bfs_shape g st s'" unfolding s'_def by (rule bfs_visit_shape[OF sh ui])
  have "bfs_mid g st P u (queue_list (b_queue s')) (b_parent s')
        \<and> parent_routes (least_length g st) g st (b_parent s')
        \<and> discovered g (b_parent s) \<subseteq> discovered g (b_parent s')
        \<and> (is_open g ?n \<longrightarrow> ?n \<in> discovered g (b_parent s'))"
  proof (cases "is_open g ?n \<and> ?n \<notin> discovered g (b_parent s)")
    case False
    with e have "s' = s" by simp
    with mid r False show ?thesis by auto
  next
    case True
    with e have p: "b_parent s' = (b_parent s)(cell_index g ?n := cell_index g u)"
      and h: "queue_hist (b_queue s') = queue_hist (b_queue s) @ [?n]"
      and q: "q_head (b_queue s') = q_head (b_queue s)"
        "q_tail (b_queue s') = q_tail (b_queue s) + 1" by simp_all
    have l: "queue_list (b_queue s') = queue_list (b_queue s) @ [?n]"
      by (rule queue_list_snoc[OF h q(1) D(3) D(4) q(2)])
    have a: "adjacent u ?n" by (rule adjacent_nbr[OF k])
    from True have o: "is_open g ?n" and nd: "?n \<notin> discovered g (b_parent s)" by simp_all
    note V = bfs_mid_visit[OF mid r st o nd a]
    have ni: "inside g ?n" using o by (simp add: is_open_def)
    have un: "cell_index g u \<noteq> -1" using cell_index_range[OF ui] by simp
    have d: "discovered g (b_parent s') = insert ?n (discovered g (b_parent s))"
      unfolding p by (rule discovered_update[OF ni un])
    show ?thesis using V d unfolding p l by auto
  qed
  then show "bfs_mid g st P u (queue_list (b_queue s')) (b_parent s')"
    and "parent_routes (least_length g st) g st (b_parent s')"
    and "discovered g (b_parent s) \<subseteq> discovered g (b_parent s')"
    and "is_open g (nbr u k) \<Longrightarrow> nbr u k \<in> discovered g (b_parent s')" by blast+
qed

lemma bfs_visits_levels:
  assumes "bfs_shape g st s"
    and "bfs_mid g st P u (queue_list (b_queue s)) (b_parent s)"
    and "parent_routes (least_length g st) g st (b_parent s)"
    and "\<forall>k\<in>set ks. k < 4"
  defines "f \<equiv> foldl (bfs_visit (fst u) (snd u))"
  shows "bfs_mid g st P u (queue_list (b_queue (f s ks))) (b_parent (f s ks))
         \<and> parent_routes (least_length g st) g st (b_parent (f s ks))
         \<and> discovered g (b_parent s) \<subseteq> discovered g (b_parent (f s ks))
         \<and> (\<forall>k\<in>set ks. is_open g (nbr u k) \<longrightarrow> nbr u k \<in> discovered g (b_parent (f s ks)))"
  using assms(1-4)
proof (induction ks arbitrary: s)
  case Nil
  then show ?case by (simp add: f_def)
next
  case (Cons k ks)
  have k: "k < 4" using Cons.prems(4) by simp
  let ?s = "bfs_visit (fst u) (snd u) s k"
  note V = bfs_visit_levels[OF Cons.prems(1,2,3) k]
  have ks: "\<forall>k\<in>set ks. k < 4" using Cons.prems(4) by simp
  note IH = Cons.IH[OF V(5) V(1) V(2) ks]
  have f: "f s (k # ks) = f ?s ks" by (simp add: f_def)
  show ?case unfolding f using IH V(3) V(4) by auto
qed

text \<open>The invariant of the while loop of \<open>solve_bfs\<close> for the shortest-path property.\<close>

lemma bfs_body_levels:
  fixes er ec :: int
  assumes sh: "bfs_shape g st s" and run: "bfs_running s"
    and r: "parent_routes (least_length g st) g st (b_parent s)"
    and hd: "bfs_head g st (set (queue_done (b_queue s))) (queue_list (b_queue s)) (b_parent s)"
  defines "s' \<equiv> bfs_step er ec s"
  shows "parent_routes (least_length g st) g st (b_parent s')"
    and "\<not> b_done s' \<Longrightarrow>
           bfs_head g st (set (queue_done (b_queue s'))) (queue_list (b_queue s')) (b_parent s')"
    and "b_done s' \<Longrightarrow> (er, ec) \<in> discovered g (b_parent s')"
proof -
  let ?s1 = "snd (bfs_take s)"
  define u where "u = q_data (b_queue s) (q_head (b_queue s))"
  note T = bfs_take_effect[OF sh run, folded u_def]
  note D = bfs_shapeD[OF sh]
  note B = bfs_body_shape[OF sh run, of 4 er ec, folded bfs_step_def s'_def u_def]
  have lt: "q_head (b_queue s) < q_tail (b_queue s)"
    using run D(4) by (simp add: bfs_running_def queue_empty_def)
  have ql: "queue_list (b_queue s) = u # queue_list (b_queue ?s1)"
  proof -
    note D1 = bfs_shapeD[OF T(10)]
    have "queue_hist (b_queue s) = queue_done (b_queue s) @ queue_list (b_queue s)"
      by (rule queue_hist_split[OF D(3) D(4)])
    moreover have "queue_hist (b_queue ?s1) = queue_done (b_queue ?s1) @ queue_list (b_queue ?s1)"
      by (rule queue_hist_split[OF D1(3) D1(4)])
    ultimately show ?thesis using T(4) T(6) by simp
  qed
  have "parent_routes (least_length g st) g st (b_parent s')
        \<and> (\<not> b_done s' \<longrightarrow>
             bfs_head g st (set (queue_done (b_queue s'))) (queue_list (b_queue s')) (b_parent s'))
        \<and> (b_done s' \<longrightarrow> (er, ec) \<in> discovered g (b_parent s'))"
  proof (cases "u = (er, ec)")
    case True
    then have s': "s' = ?s1\<lparr>b_done := True\<rparr>"
      by (simp add: s'_def bfs_step_def bfs_body_unfold T(1))
    have "(er, ec) \<in> discovered g (b_parent s)" using T(3) D(6) True by simp
    then show ?thesis using r by (simp add: s' T(5))
  next
    case False
    define f where "f = foldl (bfs_visit (fst u) (snd u)) ?s1 [0, 1, 2, 3]"
    from False have s': "s' = f"
      by (simp add: s'_def bfs_step_def bfs_body_unfold T(1) f_def)
    have mid: "bfs_mid g st (set (queue_done (b_queue s))) u (queue_list (b_queue ?s1)) (b_parent ?s1)"
      using bfs_head_to_mid[OF hd[unfolded ql]] by (simp add: T(5))
    have r1: "parent_routes (least_length g st) g st (b_parent ?s1)" using r by (simp add: T(5))
    have ks: "\<forall>k\<in>set [0, 1, 2, 3 :: nat]. k < 4" by simp
    note V = bfs_visits_levels[OF T(10) mid r1 ks, folded f_def]
    have cl: "\<forall>v. is_open g v \<and> adjacent u v \<longrightarrow> v \<in> discovered g (b_parent f)"
    proof (intro allI impI)
      fix v assume v: "is_open g v \<and> adjacent u v"
      then obtain k where k: "k < 4" "v = nbr u k" using adjacent_is_nbr by blast
      then have "k \<in> set [0, 1, 2, 3 :: nat]" by auto
      with V v k(2) show "v \<in> discovered g (b_parent f)" by blast
    qed
    from V have m: "bfs_mid g st (set (queue_done (b_queue s))) u (queue_list (b_queue f)) (b_parent f)"
      by blast
    have "bfs_head g st (insert u (set (queue_done (b_queue s)))) (queue_list (b_queue f)) (b_parent f)"
      by (rule bfs_mid_to_head[OF m cl])
    moreover have "set (queue_done (b_queue f)) = insert u (set (queue_done (b_queue s)))"
      using B(4) by (simp add: s')
    moreover have "\<not> b_done f" using B(3) False by (simp add: s')
    ultimately show ?thesis using V by (simp add: s')
  qed
  then show "parent_routes (least_length g st) g st (b_parent s')"
    and "\<not> b_done s' \<Longrightarrow>
           bfs_head g st (set (queue_done (b_queue s'))) (queue_list (b_queue s')) (b_parent s')"
    and "b_done s' \<Longrightarrow> (er, ec) \<in> discovered g (b_parent s')" by blast+
qed

lemma bfs_search_levels:
  assumes st: "is_open g (sr, sc)"
  shows "\<exists>t. bfs_search g sr sc er ec = Some t \<and> \<not> bfs_running t
             \<and> bfs_shape g (sr, sc) t
             \<and> parent_routes (least_length g (sr, sc)) g (sr, sc) (b_parent t)
             \<and> (\<not> b_done t \<longrightarrow> bfs_head g (sr, sc) (set (queue_done (b_queue t)))
                                   (queue_list (b_queue t)) (b_parent t))
             \<and> (b_done t \<longrightarrow> (er, ec) \<in> discovered g (b_parent t))"
proof -
  let ?st = "(sr, sc)"
  have si: "inside g ?st" using st by (simp add: is_open_def)
  let ?I = "\<lambda>s. bfs_shape g ?st s
                \<and> parent_routes (least_length g ?st) g ?st (b_parent s)
                \<and> (\<not> b_done s \<longrightarrow> bfs_head g ?st (set (queue_done (b_queue s)))
                                   (queue_list (b_queue s)) (b_parent s))
                \<and> (b_done s \<longrightarrow> (er, ec) \<in> discovered g (b_parent s))"
  let ?m = "\<lambda>s. nat (rows g * cols g - q_head (b_queue s))"
  have step: "?I (bfs_step er ec s) \<and> ?m (bfs_step er ec s) < ?m s"
    if "?I s" "bfs_running s" for s
  proof -
    from that have sh: "bfs_shape g ?st s"
      and r: "parent_routes (least_length g ?st) g ?st (b_parent s)" by simp_all
    have nd: "\<not> b_done s" using that(2) by (simp add: bfs_running_def)
    with that(1) have hd: "bfs_head g ?st (set (queue_done (b_queue s)))
                                   (queue_list (b_queue s)) (b_parent s)" by simp
    note B = bfs_body_shape[OF sh that(2), of 4 er ec, folded bfs_step_def]
    note L = bfs_body_levels[OF sh that(2) r hd, of er ec]
    have lt: "q_head (b_queue s) < q_tail (b_queue s)"
      using that(2) bfs_shapeD(4)[OF sh] by (simp add: bfs_running_def queue_empty_def)
    with bfs_shape_tail[OF sh] have "?m (bfs_step er ec s) < ?m s" using B(2) by simp
    with B(1) L show ?thesis by blast
  qed
  have init: "?I (bfs_init g sr sc)"
  proof -
    let ?s = "bfs_init g sr sc"
    note S = bfs_init_shape[OF si]
    note D = bfs_shapeD[OF S(1)]
    have l1: "least_length g ?st ?st 1" using min_steps_start[OF st] by (simp add: least_length_def)
    have r: "parent_routes (least_length g ?st) g ?st (b_parent ?s)"
      by (rule parent_routes_init[of g ?st "least_length g ?st" "b_parent ?s", OF st l1 S(5) D(8)])
    have dn: "queue_done (b_queue ?s) = []" by (simp add: queue_done_def S(3) entries_empty)
    have ql: "queue_list (b_queue ?s) = [?st]"
      using queue_hist_split[OF D(3) D(4)] by (simp add: dn S(2))
    have "bfs_head g ?st (set (queue_done (b_queue ?s))) (queue_list (b_queue ?s)) (b_parent ?s)"
      unfolding bfs_head_def dn ql using S(5) by (simp add: closed_cells_def)
    with S(1) S(4) r show ?thesis by simp
  qed
  from bfs_loop_total[where I = ?I and m = ?m, OF step init]
  show ?thesis unfolding bfs_search_def by blast
qed


section \<open>Reconstruction at the end of a search\<close>

lemma cell_of_inj:
  assumes "0 < cls" "0 \<le> i" "0 \<le> j" "cell_of cls i = cell_of cls j"
  shows "i = j"
proof -
  from assms have "i div cls = j div cls" "i mod cls = j mod cls"
    by (simp_all add: cell_of_def sdiv_nonneg smod_nonneg)
  then show ?thesis by (metis mult_div_mod_eq)
qed

lemma parent_path_cells_distinct:
  assumes "parent_path parent i p" "0 < cls"
  shows "distinct (map (cell_of cls) p)"
proof -
  have "inj_on (cell_of cls) (set p)"
  proof (rule inj_onI)
    fix a b assume "a \<in> set p" "b \<in> set p" "cell_of cls a = cell_of cls b"
    then show "a = b"
      using parent_path_set[OF assms(1)] cell_of_inj[OF assms(2)] by blast
  qed
  then show ?thesis using parent_path_distinct[OF assms(1)] by (simp add: distinct_map)
qed

text \<open>What \<open>reconstruct_and_mark\<close> does at the end of a search, given the invariant.\<close>

lemma routes_reconstruct:
  assumes r: "parent_routes L g st parent" and en: "inside g (er, ec)"
  shows "\<exists>p. reconstruct_path parent (cols g) er ec = Some p
           \<and> (\<exists>g'. reconstruct_and_mark h parent (cols g) er ec = Some g')
           \<and> (p = []) = (parent (er * cols g + ec) = -1)
           \<and> (p \<noteq> [] \<longrightarrow> parent_path parent (er * cols g + ec) p
                 \<and> is_route g st (er, ec) (map (cell_of (cols g)) p)
                 \<and> L (er, ec) (length p))"
proof (cases "parent (er * cols g + ec) = -1")
  case True
  then show ?thesis by (simp add: reconstruct_path_def reconstruct_and_mark_def)
next
  case False
  then have "(er, ec) \<in> discovered g parent" using en by (simp add: discovered_def cell_index_def)
  from parent_routesD[OF r this] obtain p where
    p: "parent_path parent (er * cols g + ec) p"
       "is_route g st (er, ec) (map (cell_of (cols g)) p)" "L (er, ec) (length p)"
    by (auto simp: cell_index_def)
  have ne: "p \<noteq> []" using parent_path_hd[OF p(1)] by simp
  have "reconstruct_path parent (cols g) er ec = Some p"
    using False parent_path_cells[OF p(1)] by (simp add: reconstruct_path_def)
  moreover have "reconstruct_and_mark h parent (cols g) er ec = Some (mark_path h (cols g) p)"
    using False parent_path_reconstruct[OF p(1)] by (simp add: reconstruct_and_mark_def)
  ultimately show ?thesis using p ne False by simp
qed


section \<open>The grid before carving\<close>

lemma fill_row:
  "cols (foldl (\<lambda>g c. grid_set g r c v) g cs) = cols g
   \<and> rows (foldl (\<lambda>g c. grid_set g r c v) g cs) = rows g
   \<and> marks (foldl (\<lambda>g c. grid_set g r c v) g cs) = marks g
   \<and> cells (foldl (\<lambda>g c. grid_set g r c v) g cs)
       = (\<lambda>i. if i \<in> (\<lambda>c. r * cols g + c) ` set cs then v else cells g i)"
proof (induction cs arbitrary: g)
  case Nil
  then show ?case by simp
next
  case (Cons c cs)
  let ?g = "grid_set g r c v"
  have g: "cols ?g = cols g" "rows ?g = rows g" "marks ?g = marks g"
    "cells ?g = (cells g)(r * cols g + c := v)" by (simp_all add: grid_set_def)
  show ?case using Cons.IH[of ?g] by (auto simp: g)
qed

lemma fill_rows:
  "cols (foldl (\<lambda>g r. foldl (\<lambda>g c. grid_set g r c v) g cs) g rs) = cols g
   \<and> rows (foldl (\<lambda>g r. foldl (\<lambda>g c. grid_set g r c v) g cs) g rs) = rows g
   \<and> marks (foldl (\<lambda>g r. foldl (\<lambda>g c. grid_set g r c v) g cs) g rs) = marks g
   \<and> cells (foldl (\<lambda>g r. foldl (\<lambda>g c. grid_set g r c v) g cs) g rs)
       = (\<lambda>i. if i \<in> (\<lambda>(r, c). r * cols g + c) ` (set rs \<times> set cs) then v else cells g i)"
proof (induction rs arbitrary: g)
  case Nil
  then show ?case by simp
next
  case (Cons r rs)
  let ?g = "foldl (\<lambda>g c. grid_set g r c v) g cs"
  note R = fill_row[of r v g cs]
  have "cells (foldl (\<lambda>g r. foldl (\<lambda>g c. grid_set g r c v) g cs) ?g rs)
        = (\<lambda>i. if i \<in> (\<lambda>(r, c). r * cols g + c) ` (set (r # rs) \<times> set cs) then v else cells g i)"
    using Cons.IH[of ?g] R by (auto simp: fun_eq_iff)
  then show ?case using Cons.IH[of ?g] R by simp
qed

lemma gen_fill_dims: "rows (gen_fill g) = rows g" "cols (gen_fill g) = cols g"
  using fill_rows[of "1" "[0..cols g - 1]" g "[0..rows g - 1]"]
    fill_rows[of "0" "filter odd [1..cols g - 1]"
      "foldl (\<lambda>h r. foldl (\<lambda>h c. grid_set h r c 1) h [0..cols g - 1]) g [0..rows g - 1]"
      "filter odd [1..rows g - 1]"]
  by (simp_all add: gen_fill_def Let_def)

lemma odd_nonneg_pos: "odd (a::int) \<Longrightarrow> 0 \<le> a \<Longrightarrow> 1 \<le> a"
  by (cases "a = 0") auto

lemma gen_fill_open:
  assumes "inside g v"
  shows "is_open (gen_fill g) v = room g v"
proof -
  let ?g1 = "foldl (\<lambda>h r. foldl (\<lambda>h c. grid_set h r c 1) h [0..cols g - 1]) g [0..rows g - 1]"
  let ?R = "set (filter odd [1..rows g - 1])" and ?C = "set (filter odd [1..cols g - 1])"
  let ?A = "set [0..rows g - 1] \<times> set [0..cols g - 1]"
  let ?ix = "\<lambda>(r, c). r * cols g + c"
  note F1 = fill_rows[of "1" "[0..cols g - 1]" g "[0..rows g - 1]"]
  note F2 = fill_rows[of "0" "filter odd [1..cols g - 1]" ?g1 "filter odd [1..rows g - 1]"]
  have c1: "cols ?g1 = cols g" using F1 by simp
  have cells: "cells (gen_fill g) = (\<lambda>i. if i \<in> ?ix ` (?R \<times> ?C) then 0
                                        else if i \<in> ?ix ` ?A then 1 else cells g i)"
    using F1 F2 by (simp add: gen_fill_def Let_def c1 fun_eq_iff)
  have ins: "inside (gen_fill g) v = inside g v"
    by (simp add: inside_def is_inside_def gen_fill_dims)
  have va: "v \<in> ?A" using assms by (cases v) (auto simp: inside_def is_inside_def)
  then have ia: "?ix v \<in> ?ix ` ?A" by (rule imageI)
  have rc: "(v \<in> ?R \<times> ?C) = room g v"
    using assms by (cases v) (auto simp: room_def inside_def is_inside_def odd_nonneg_pos)
  have "(?ix v \<in> ?ix ` (?R \<times> ?C)) = (v \<in> ?R \<times> ?C)"
  proof
    assume "?ix v \<in> ?ix ` (?R \<times> ?C)"
    then obtain w where w: "w \<in> ?R \<times> ?C" "?ix v = ?ix w" by blast
    then have "inside g w" by (cases w) (auto simp: inside_def is_inside_def)
    with w(2) assms have "v = w"
      using cell_index_inj[of g v w] by (simp add: cell_index_def split_beta)
    with w(1) show "v \<in> ?R \<times> ?C" by simp
  next
    assume "v \<in> ?R \<times> ?C"
    then show "?ix v \<in> ?ix ` (?R \<times> ?C)" by (rule imageI)
  qed
  with rc have r: "(?ix v \<in> ?ix ` (?R \<times> ?C)) = room g v" by simp
  have gg: "grid_get (gen_fill g) (fst v) (snd v) = (if room g v then 0 else 1)"
    using r ia by (simp add: grid_get_def gen_fill_dims cells split_beta)
  show ?thesis using assms by (simp add: is_open_def ins gg)
qed

section \<open>Carving keeps a tree\<close>

lemma four_cases: "k < 4 \<Longrightarrow> k = 0 \<or> k = 1 \<or> k = 2 \<or> k = (3::nat)"
  by linarith

lemma far_mid_values:
  "far u 0 = (fst u - 2, snd u)" "far u 1 = (fst u + 2, snd u)"
  "far u 2 = (fst u, snd u - 2)" "far u 3 = (fst u, snd u + 2)"
  "wall_between u 0 = (fst u - 1, snd u)" "wall_between u 1 = (fst u + 1, snd u)"
  "wall_between u 2 = (fst u, snd u - 1)" "wall_between u 3 = (fst u, snd u + 1)"
  "far u (Suc 0) = (fst u + 2, snd u)" "wall_between u (Suc 0) = (fst u + 1, snd u)"
  by (simp_all add: far_def wall_between_def dirs2_def signed_divide_int_def)

lemma mid_adjacent:
  assumes "k < 4"
  shows "adjacent u (wall_between u k)" and "adjacent (wall_between u k) (far u k)"
  using four_cases[OF assms] by (auto simp: far_mid_values adjacent_def)

lemma mid_between:
  assumes k: "k < 4" and u: "room g u" and f: "room g (far u k)"
  shows "inside g (wall_between u k)" and "\<not> room g (wall_between u k)"
    and "room g a \<Longrightarrow> adjacent a (wall_between u k) \<Longrightarrow> a = u \<or> a = far u k"
proof -
  obtain r c where uc: "u = (r, c)" by (cases u)
  show "inside g (wall_between u k)"
    using four_cases[OF k] u f
    by (auto simp: far_mid_values room_def inside_def is_inside_def uc)
  show "\<not> room g (wall_between u k)"
    using four_cases[OF k] u by (auto simp: far_mid_values room_def uc)
  show "a = u \<or> a = far u k" if a: "room g a" "adjacent a (wall_between u k)"
  proof -
    obtain x y where ac: "a = (x, y)" by (cases a)
    from a(1) u have o: "odd x" "odd y" "odd r" "odd c" by (simp_all add: room_def ac uc)
    from four_cases[OF k] show ?thesis
    proof (elim disjE)
      assume "k = 0"
      with a(2) have "\<bar>x - (r - 1)\<bar> + \<bar>y - c\<bar> = 1" by (simp add: far_mid_values adjacent_def ac uc)
      moreover have "x \<noteq> r - 1" using o by presburger
      ultimately have "y = c \<and> (x = r \<or> x = r - 2)" by (auto simp: abs_if split: if_splits)
      then show ?thesis using \<open>k = 0\<close> by (auto simp: far_mid_values ac uc)
    next
      assume "k = 1"
      with a(2) have "\<bar>x - (r + 1)\<bar> + \<bar>y - c\<bar> = 1" by (simp add: far_mid_values adjacent_def ac uc)
      moreover have "x \<noteq> r + 1" using o by presburger
      ultimately have "y = c \<and> (x = r \<or> x = r + 2)" by (auto simp: abs_if split: if_splits)
      then show ?thesis using \<open>k = 1\<close> by (auto simp: far_mid_values ac uc)
    next
      assume "k = 2"
      with a(2) have "\<bar>x - r\<bar> + \<bar>y - (c - 1)\<bar> = 1" by (simp add: far_mid_values adjacent_def ac uc)
      moreover have "y \<noteq> c - 1" using o by presburger
      ultimately have "x = r \<and> (y = c \<or> y = c - 2)" by (auto simp: abs_if split: if_splits)
      then show ?thesis using \<open>k = 2\<close> by (auto simp: far_mid_values ac uc)
    next
      assume "k = 3"
      with a(2) have "\<bar>x - r\<bar> + \<bar>y - (c + 1)\<bar> = 1" by (simp add: far_mid_values adjacent_def ac uc)
      moreover have "y \<noteq> c + 1" using o by presburger
      ultimately have "x = r \<and> (y = c \<or> y = c + 2)" by (auto simp: abs_if split: if_splits)
      then show ?thesis using \<open>k = 3\<close> by (auto simp: far_mid_values ac uc)
    qed
  qed
qed

text \<open>On a grid with odd dimensions the rooms are the cells the generator may step to.\<close>

lemma room_far:
  assumes od: "odd (rows g)" "odd (cols g)" and u: "room g u" and k: "k < 4"
  shows "room g (far u k)
         = (fst (far u k) > 0 \<and> fst (far u k) < rows g - 1
            \<and> snd (far u k) > 0 \<and> snd (far u k) < cols g - 1)"
proof -
  obtain r c where uc: "u = (r, c)" by (cases u)
  from u have o: "odd r" "odd c" and i: "0 \<le> r" "r < rows g" "0 \<le> c" "c < cols g"
    by (simp_all add: room_def inside_def is_inside_def uc)
  have e: "r \<noteq> rows g - 1" "c \<noteq> cols g - 1" "r \<noteq> 0" "c \<noteq> 0"
    "r + 2 \<noteq> rows g - 1" "c + 2 \<noteq> cols g - 1" "r - 2 \<noteq> 0" "c - 2 \<noteq> 0"
    using o od by presburger+
  from four_cases[OF k] show ?thesis
    using o i e by (elim disjE) (auto simp: far_mid_values room_def inside_def is_inside_def uc)
qed

lemma open_path_mono:
  assumes "\<And>x. is_open g x \<Longrightarrow> is_open h x"
  shows "open_path g p \<Longrightarrow> open_path h p"
  by (induction p rule: induct_list012) (auto simp: assms)

lemma reachable_mono:
  assumes "\<And>x. is_open g x \<Longrightarrow> is_open h x" "reachable g s v"
  shows "reachable h s v"
  using assms open_path_mono[of g h] unfolding reachable_def is_route_def by blast

lemma finite_rooms: "finite {v. room g v}"
  by (rule finite_subset[OF _ finite_inside[of g]]) (auto simp: room_def)

lemma finite_visited: "finite (gen_visited g s)"
  by (rule finite_subset[OF _ finite_inside[of g]]) (auto simp: gen_visited_def room_def)

lemma finite_doors: "finite (doors h)"
  by (rule finite_subset[OF _ finite_inside[of h]]) (auto simp: doors_def)

lemma gen_invD:
  assumes "gen_inv g s"
  shows "rows (gn_grid s) = rows g" and "cols (gn_grid s) = cols g"
    and "\<And>v. room g v \<Longrightarrow> is_open (gn_grid s) v"
    and "\<And>w a. w \<in> doors (gn_grid s) \<Longrightarrow> room g a \<Longrightarrow> adjacent a w \<Longrightarrow> a \<in> gen_visited g s"
    and "card (doors (gn_grid s)) + 1 = card (gen_visited g s)"
    and "(1, 1) \<in> gen_visited g s"
    and "\<And>v. v \<in> gen_visited g s \<Longrightarrow> reachable (gn_grid s) (1, 1) v"
    and "0 \<le> gn_top s"
    and "set (gen_stack_list s) \<subseteq> gen_visited g s"
    and "\<And>v k. v \<in> gen_visited g s \<Longrightarrow> v \<notin> set (gen_stack_list s) \<Longrightarrow> k < 4
           \<Longrightarrow> room g (far v k) \<Longrightarrow> far v k \<in> gen_visited g s"
  using assms unfolding gen_inv_def by blast+

lemma gen_invI:
  assumes "rows (gn_grid s) = rows g" and "cols (gn_grid s) = cols g"
    and "\<And>v. room g v \<Longrightarrow> is_open (gn_grid s) v"
    and "\<And>w a. w \<in> doors (gn_grid s) \<Longrightarrow> room g a \<Longrightarrow> adjacent a w \<Longrightarrow> a \<in> gen_visited g s"
    and "card (doors (gn_grid s)) + 1 = card (gen_visited g s)"
    and "(1, 1) \<in> gen_visited g s"
    and "\<And>v. v \<in> gen_visited g s \<Longrightarrow> reachable (gn_grid s) (1, 1) v"
    and "0 \<le> gn_top s"
    and "set (gen_stack_list s) \<subseteq> gen_visited g s"
    and "\<And>v k. v \<in> gen_visited g s \<Longrightarrow> v \<notin> set (gen_stack_list s) \<Longrightarrow> k < 4
           \<Longrightarrow> room g (far v k) \<Longrightarrow> far v k \<in> gen_visited g s"
  shows "gen_inv g s"
  using assms unfolding gen_inv_def by blast

section \<open>One iteration of the generator\<close>

lemma gen_choices_iff:
  assumes inv: "gen_inv g s" and od: "odd (rows g)" "odd (cols g)"
    and u: "room g u" and k: "k < 4"
  shows "(k \<in> set (gen_choices s (fst u) (snd u)))
         = (room g (far u k) \<and> far u k \<notin> gen_visited g s)"
proof -
  note D = gen_invD[OF inv]
  have m: "k \<in> set [0, 1, 2, 3 :: nat]" using four_cases[OF k] by auto
  have v: "(far u k \<notin> gen_visited g s)
           = (gn_vis s (fst (far u k) * cols g + snd (far u k)) = 0)" if "room g (far u k)"
    using that by (simp add: gen_visited_def cell_index_def)
  show ?thesis
    unfolding gen_choices_def Let_def set_filter D(1) D(2)
    using m room_far[OF od u k] v by (auto simp: far_def)
qed

lemma gen_choices_bound:
  assumes "k \<in> set (gen_choices s r c)"
  shows "k < 4"
proof -
  have "set (gen_choices s r c) \<subseteq> set [0, 1, 2, 3]"
    unfolding gen_choices_def Let_def by (rule filter_is_subset)
  with assms have "k \<in> set [0, 1, 2, 3 :: nat]" by blast
  then show ?thesis by auto
qed

lemma adjacent_sym: "adjacent a b = adjacent b a"
  by (simp add: adjacent_def abs_minus_commute)

lemma gen_step_pop:
  assumes "gen_choices s (fst (gn_stack s (gn_top s - 1))) (snd (gn_stack s (gn_top s - 1))) = []"
  shows "gen_step rnd s = s\<lparr>gn_top := gn_top s - 1\<rparr>"
  using assms by (simp add: gen_step_def Let_def)

lemma gen_step_carve:
  fixes s :: gen_state and rnd :: "nat \<Rightarrow> nat"
  defines "u \<equiv> gn_stack s (gn_top s - 1)"
  defines "cs \<equiv> gen_choices s (fst u) (snd u)"
  defines "pick \<equiv> cs ! (rnd (gn_rand s) mod length cs)"
  assumes ne: "cs \<noteq> []"
  shows "pick \<in> set cs"
    and "gen_step rnd s =
          s\<lparr>gn_grid := grid_set (gn_grid s) (fst (wall_between u pick)) (snd (wall_between u pick)) 0,
            gn_vis := (gn_vis s)(fst (far u pick) * cols (gn_grid s) + snd (far u pick) := 1),
            gn_stack := (gn_stack s)(gn_top s := far u pick),
            gn_top := gn_top s + 1,
            gn_rand := gn_rand s + 1\<rparr>"
proof -
  have "rnd (gn_rand s) mod length cs < length cs" using ne by simp
  then show "pick \<in> set cs" unfolding pick_def by (rule nth_mem)
  have "0 < length cs" using ne by simp
  then show "gen_step rnd s =
          s\<lparr>gn_grid := grid_set (gn_grid s) (fst (wall_between u pick)) (snd (wall_between u pick)) 0,
            gn_vis := (gn_vis s)(fst (far u pick) * cols (gn_grid s) + snd (far u pick) := 1),
            gn_stack := (gn_stack s)(gn_top s := far u pick),
            gn_top := gn_top s + 1,
            gn_rand := gn_rand s + 1\<rparr>"
    unfolding gen_step_def Let_def u_def[symmetric] cs_def[symmetric] pick_def[symmetric]
    by (simp add: far_def wall_between_def)
qed

lemma visited_insert:
  assumes "room g n"
  shows "{v. room g v \<and> (vis(cell_index g n := 1 :: 8 word)) (cell_index g v) \<noteq> 0}
         = insert n {v. room g v \<and> vis (cell_index g v) \<noteq> 0}"
  using assms cell_index_inj[of g _ n] by (auto simp: room_def)

lemma open_after_carve:
  assumes d: "rows h = rows g" "cols h = cols g" and w: "inside g w"
  defines "h' \<equiv> grid_set h (fst w) (snd w) 0"
  shows "is_open h' x = (x = w \<or> is_open h x)"
    and "rows h' = rows g" and "cols h' = cols g"
proof -
  show r: "rows h' = rows g" "cols h' = cols g" by (simp_all add: h'_def grid_set_def d)
  have c: "cells h' = (cells h)(cell_index g w := 0)"
    by (simp add: h'_def grid_set_def d cell_index_def)
  have i: "inside h' x = inside g x" "inside h x = inside g x"
    by (simp_all add: inside_def is_inside_def r d)
  show "is_open h' x = (x = w \<or> is_open h x)"
  proof (cases "inside g x")
    case False
    with w i show ?thesis by (auto simp: is_open_def)
  next
    case True
    have "(cell_index g x = cell_index g w) = (x = w)"
      using cell_index_inj[OF True w] by blast
    then show ?thesis
      using True w i by (auto simp: is_open_def grid_get_def r d c cell_index_def)
  qed
qed

lemma doors_dims:
  assumes "rows h = rows g" "cols h = cols g"
  shows "doors h = {w. inside g w \<and> \<not> room g w \<and> is_open h w}"
  using assms by (simp add: doors_def room_def inside_def is_inside_def)

text \<open>The invariant holds after the iteration, and the measure has gone down.\<close>

lemma gen_step_inv:
  assumes inv: "gen_inv g s" and od: "odd (rows g)" "odd (cols g)" and run: "gn_top s > 0"
  shows "gen_inv g (gen_step rnd s) \<and> gen_measure g (gen_step rnd s) < gen_measure g s"
proof -
  note D = gen_invD[OF inv]
  define u where "u = gn_stack s (gn_top s - 1)"
  define cs where "cs = gen_choices s (fst u) (snd u)"
  let ?V = "gen_visited g s"
  have sl: "gen_stack_list s = entries (gn_stack s) 0 (gn_top s - 1) @ [u]"
    using entries_last[of 0 "gn_top s - 1" "gn_stack s"] run
    by (simp add: gen_stack_list_def u_def)
  then have "u \<in> set (gen_stack_list s)" by simp
  then have uV: "u \<in> ?V" using D(9) by blast
  then have ur: "room g u" by (simp add: gen_visited_def)
  note C = gen_choices_iff[OF inv od ur, folded cs_def]
  show ?thesis
  proof (cases "cs = []")
    case True
    then have s': "gen_step rnd s = s\<lparr>gn_top := gn_top s - 1\<rparr>"
      unfolding cs_def u_def by (rule gen_step_pop)
    let ?s = "s\<lparr>gn_top := gn_top s - 1\<rparr>"
    have V: "gen_visited g ?s = ?V" by (simp add: gen_visited_def)
    have L: "gen_stack_list ?s = entries (gn_stack s) 0 (gn_top s - 1)"
      by (simp add: gen_stack_list_def)
    have fin: "far u k \<in> ?V" if "k < 4" "room g (far u k)" for k
      using C[OF that(1)] that(2) True by auto
    have "gen_inv g ?s"
    proof (rule gen_invI)
      show "rows (gn_grid ?s) = rows g" "cols (gn_grid ?s) = cols g" using D(1,2) by simp_all
      show "is_open (gn_grid ?s) v" if "room g v" for v using D(3)[OF that] by simp
      show "a \<in> gen_visited g ?s"
        if "w \<in> doors (gn_grid ?s)" "room g a" "adjacent a w" for w a
        using D(4)[of w a] that by (simp add: V)
      show "card (doors (gn_grid ?s)) + 1 = card (gen_visited g ?s)" using D(5) by (simp add: V)
      show "(1, 1) \<in> gen_visited g ?s" using D(6) by (simp add: V)
      show "reachable (gn_grid ?s) (1, 1) v" if "v \<in> gen_visited g ?s" for v
        using D(7)[of v] that by (simp add: V)
      show "0 \<le> gn_top ?s" using run by simp
      show "set (gen_stack_list ?s) \<subseteq> gen_visited g ?s" using D(9) unfolding V L sl by auto
      show "far v k \<in> gen_visited g ?s"
        if "v \<in> gen_visited g ?s" "v \<notin> set (gen_stack_list ?s)" "k < 4" "room g (far v k)"
        for v k
      proof (cases "v = u")
        case True
        then show ?thesis using fin[OF that(3)] that(4) by (simp add: V)
      next
        case False
        with that(2) have "v \<notin> set (gen_stack_list s)" unfolding L sl by simp
        from D(10)[OF _ this that(3,4)] that(1) show ?thesis by (simp add: V)
      qed
    qed
    moreover have "gen_measure g ?s < gen_measure g s"
      using run by (simp add: gen_measure_def V)
    ultimately show ?thesis by (simp add: s')
  next
    case False
    define pick where "pick = cs ! (rnd (gn_rand s) mod length cs)"
    define n where "n = far u pick"
    define w where "w = wall_between u pick"
    note G = gen_step_carve[of s rnd, folded u_def, folded cs_def, folded pick_def,
        OF False, folded n_def w_def]
    have k: "pick < 4" using G(1) gen_choices_bound unfolding cs_def by blast
    from C[OF k] G(1) have nr: "room g n" and nV: "n \<notin> ?V" by (simp_all add: n_def)
    note M = mid_between[OF k ur nr[unfolded n_def], folded w_def n_def]
    note A = mid_adjacent[OF k, of u, folded w_def n_def]
    define s' where "s' = gen_step rnd s"
    have g': "gn_grid s' = grid_set (gn_grid s) (fst w) (snd w) 0"
      and v': "gn_vis s' = (gn_vis s)(cell_index g n := 1)"
      and st': "gn_stack s' = (gn_stack s)(gn_top s := n)"
      and t': "gn_top s' = gn_top s + 1"
      by (simp_all add: s'_def G(2) cell_index_def D(2))
    note O = open_after_carve[OF D(1) D(2) M(1), folded g']
    have V: "gen_visited g s' = insert n ?V"
      unfolding gen_visited_def v' by (rule visited_insert[OF nr])
    have L: "gen_stack_list s' = gen_stack_list s @ [n]"
      unfolding gen_stack_list_def st' t' using D(8) by (simp add: entries_snoc)
    have wd: "w \<notin> doors (gn_grid s)"
      using D(4)[of w n] nr A(2) nV adjacent_sym[of n w] by blast
    have dd: "doors (gn_grid s') = insert w (doors (gn_grid s))"
      unfolding doors_dims[OF O(2) O(3)] doors_dims[OF D(1) D(2)]
      using M(1,2) by (auto simp: O(1))
    have mono: "is_open (gn_grid s') x" if "is_open (gn_grid s) x" for x
      using that by (simp add: O(1))
    have "gen_inv g s'"
    proof (rule gen_invI)
      show "rows (gn_grid s') = rows g" "cols (gn_grid s') = cols g" by (rule O(2), rule O(3))
      show "is_open (gn_grid s') v" if "room g v" for v using D(3)[OF that] mono by blast
      show "a \<in> gen_visited g s'"
        if "x \<in> doors (gn_grid s')" "room g a" "adjacent a x" for x a
      proof (cases "x = w")
        case True
        with M(3)[OF that(2)] that(3) uV show ?thesis by (auto simp: V)
      next
        case False
        with that(1) have "x \<in> doors (gn_grid s)" by (simp add: dd)
        from D(4)[OF this that(2,3)] show ?thesis by (simp add: V)
      qed
      show "card (doors (gn_grid s')) + 1 = card (gen_visited g s')"
        unfolding dd V using D(5) wd nV finite_doors[of "gn_grid s"] finite_visited[of g s]
        by simp
      show "(1, 1) \<in> gen_visited g s'" using D(6) by (simp add: V)
      show "reachable (gn_grid s') (1, 1) v" if "v \<in> gen_visited g s'" for v
      proof (cases "v = n")
        case True
        from D(7)[OF uV] have "reachable (gn_grid s') (1, 1) u"
          using reachable_mono[of "gn_grid s" "gn_grid s'"] mono by blast
        then have "reachable (gn_grid s') (1, 1) w"
          using min_steps_step(1)[of "gn_grid s'" "(1, 1)" u w] A(1) by (simp add: O(1))
        moreover have "is_open (gn_grid s') n" using D(3)[OF nr] mono by blast
        ultimately show ?thesis
          using min_steps_step(1)[of "gn_grid s'" "(1, 1)" w n] A(2) True by simp
      next
        case False
        with that have "v \<in> ?V" by (simp add: V)
        from D(7)[OF this] show ?thesis
          using reachable_mono[of "gn_grid s" "gn_grid s'"] mono by blast
      qed
      show "0 \<le> gn_top s'" using D(8) by (simp add: t')
      show "set (gen_stack_list s') \<subseteq> gen_visited g s'" using D(9) by (auto simp: L V)
      show "far v j \<in> gen_visited g s'"
        if "v \<in> gen_visited g s'" "v \<notin> set (gen_stack_list s')" "j < 4" "room g (far v j)"
        for v j
      proof -
        from that(2) have "v \<noteq> n" "v \<notin> set (gen_stack_list s)" by (simp_all add: L)
        with that(1) have "v \<in> ?V" by (simp add: V)
        from D(10)[OF this \<open>v \<notin> set (gen_stack_list s)\<close> that(3,4)] show ?thesis by (simp add: V)
      qed
    qed
    moreover have "gen_measure g s' < gen_measure g s"
    proof -
      have e: "{v. room g v} - insert n ?V = ({v. room g v} - ?V) - {n}" by blast
      have i: "n \<in> {v. room g v} - ?V" using nr nV by simp
      have f: "finite ({v. room g v} - ?V)" using finite_rooms[of g] by simp
      have "card (({v. room g v} - ?V) - {n}) < card ({v. room g v} - ?V)"
        using i f by (rule card_Diff1_less[rotated])
      then show ?thesis using D(8) unfolding gen_measure_def V e t' by simp
    qed
    ultimately show ?thesis by (simp add: s'_def)
  qed
qed

section \<open>The path of solve_bfs is a shortest one\<close>

text \<open>
  Claim C1. When there is a path over open cells from the end cell back to the start,
  \<open>solve_bfs\<close> returns, and the path it walks back is such a path whose number of steps
  (one less than its number of cells) is the least possible: it equals \<open>min_steps\<close> and
  is not larger than that of any given path \<open>q\<close>.
\<close>

theorem bfs_path_shortest:
  assumes q: "is_route g (sr, sc) (er, ec) q"
  shows "\<exists>t p g'. bfs_search g sr sc er ec = Some t
           \<and> reconstruct_path (b_parent t) (cols g) er ec = Some p
           \<and> solve_bfs g sr sc er ec = Some g'
           \<and> is_route g (sr, sc) (er, ec) (map (cell_of (cols g)) p)
           \<and> length p - 1 = min_steps g (sr, sc) (er, ec)
           \<and> length p - 1 \<le> length q - 1"
proof -
  let ?st = "(sr, sc)" and ?e = "(er, ec)"
  from route_ends_open[OF q] have st: "is_open g ?st" and eo: "is_open g ?e" by simp_all
  then have en: "inside g ?e" by (simp add: is_open_def)
  from bfs_search_levels[OF st, of er ec] obtain t where
    t: "bfs_search g sr sc er ec = Some t" "\<not> bfs_running t" "bfs_shape g ?st t"
       "parent_routes (least_length g ?st) g ?st (b_parent t)"
       "\<not> b_done t \<longrightarrow> bfs_head g ?st (set (queue_done (b_queue t)))
                                   (queue_list (b_queue t)) (b_parent t)"
       "b_done t \<longrightarrow> ?e \<in> discovered g (b_parent t)" by blast
  note D = bfs_shapeD[OF t(3)]
  have ed: "?e \<in> discovered g (b_parent t)"
  proof (cases "b_done t")
    case True
    with t(6) show ?thesis by simp
  next
    case False
    with t(2) have "q_head (b_queue t) = q_tail (b_queue t)"
      by (simp add: bfs_running_def queue_empty_def)
    then have l: "queue_list (b_queue t) = []" by (simp add: queue_list_def entries_empty)
    from False t(5) have h: "bfs_head g ?st (set (queue_done (b_queue t))) [] (b_parent t)"
      by (simp add: l)
    then have c: "closed_cells g (set (queue_done (b_queue t))) (b_parent t)"
      and d: "discovered g (b_parent t) = set (queue_done (b_queue t))"
      by (simp_all add: bfs_head_def)
    have "?st \<in> discovered g (b_parent t)" using D(7,8) by (simp add: discovered_def)
    then have s: "?st \<in> set (queue_done (b_queue t))" unfolding d .
    from closed_reaches[OF c _ s q] d show ?thesis by simp
  qed
  then have pe: "b_parent t (er * cols g + ec) \<noteq> -1"
    by (simp add: discovered_def cell_index_def)
  from routes_reconstruct[OF t(4) en, of "b_grid t"] pe obtain p g' where
    p: "reconstruct_path (b_parent t) (cols g) er ec = Some p"
       "reconstruct_and_mark (b_grid t) (b_parent t) (cols g) er ec = Some g'"
       "p \<noteq> []" "is_route g ?st ?e (map (cell_of (cols g)) p)"
       "least_length g ?st ?e (length p)" by blast
  have s: "solve_bfs g sr sc er ec = Some g'" by (simp add: solve_bfs_def t(1) p(2))
  have len: "length p - 1 = min_steps g ?st ?e" using p(5) by (simp add: least_length_def)
  have "min_steps g ?st ?e \<le> length q - 1" using min_steps_le[OF q] by simp
  with t(1) p(1) p(4) s len show ?thesis by auto
qed

text \<open>A grid of one row and three open cells: the route has two steps.\<close>

theorem bfs_path_shortest_witness:
  "is_route \<lparr>rows = 1, cols = 3, cells = (\<lambda>_. 0), marks = (\<lambda>_. 0)\<rparr> (0, 0) (0, 2)
     [(0, 2), (0, 1), (0, 0)]
   \<and> (\<exists>t p g'. bfs_search \<lparr>rows = 1, cols = 3, cells = (\<lambda>_. 0), marks = (\<lambda>_. 0)\<rparr> 0 0 0 2 = Some t
         \<and> reconstruct_path (b_parent t) 3 0 2 = Some p
         \<and> solve_bfs \<lparr>rows = 1, cols = 3, cells = (\<lambda>_. 0), marks = (\<lambda>_. 0)\<rparr> 0 0 0 2 = Some g'
         \<and> length p - 1 \<le> 2)"
proof -
  let ?G = "\<lparr>rows = 1, cols = 3, cells = (\<lambda>_. 0), marks = (\<lambda>_. 0)\<rparr>"
  have r: "is_route ?G (0, 0) (0, 2) [(0, 2), (0, 1), (0, 0)]"
    by (simp add: is_route_def is_open_def inside_def is_inside_def grid_get_def adjacent_def)
  from bfs_path_shortest[OF r]
  have "\<exists>t p g'. bfs_search ?G 0 0 0 2 = Some t
         \<and> reconstruct_path (b_parent t) 3 0 2 = Some p
         \<and> solve_bfs ?G 0 0 0 2 = Some g'
         \<and> length p - 1 \<le> 2" by auto
  with r show ?thesis by (intro conjI)
qed

section \<open>A parent entry is written once\<close>

lemma bfs_visit_parent:
  "b_parent s i \<noteq> -1 \<Longrightarrow> b_parent (bfs_visit r c s k) i = b_parent s i"
  by (auto simp: bfs_visit_def Let_def)

lemma bfs_visits_parent:
  "b_parent s i \<noteq> -1 \<Longrightarrow> b_parent (foldl (bfs_visit r c) s ks) i = b_parent s i"
  by (induction ks arbitrary: s) (simp_all add: bfs_visit_parent)

lemma bfs_take_parent: "b_parent (snd (bfs_take s)) = b_parent s"
  by (cases "queue_pop (b_queue s)") (simp add: bfs_take_def Let_def)

lemma bfs_body_parent:
  "b_parent s i \<noteq> -1 \<Longrightarrow> b_parent (bfs_body n er ec s) i = b_parent s i"
  by (simp add: bfs_body_unfold bfs_visits_parent bfs_take_parent)

lemma bfs_steps_parent:
  "b_parent s i \<noteq> -1 \<Longrightarrow> b_parent ((bfs_step er ec ^^ m) s) i = b_parent s i"
  by (induction m) (simp_all add: bfs_step_def bfs_body_parent)

lemma dfs_visit_parent:
  "d_parent s i \<noteq> -1 \<Longrightarrow> d_parent (dfs_visit r c s k) i = d_parent s i"
  by (auto simp: dfs_visit_def Let_def)

lemma dfs_visits_parent:
  "d_parent s i \<noteq> -1 \<Longrightarrow> d_parent (foldl (dfs_visit r c) s ks) i = d_parent s i"
  by (induction ks arbitrary: s) (simp_all add: dfs_visit_parent)

lemma dfs_take_parent: "d_parent (snd (dfs_take s)) = d_parent s"
  by (simp add: dfs_take_def stack_pop_def Let_def)

lemma dfs_body_parent:
  "d_parent s i \<noteq> -1 \<Longrightarrow> d_parent (dfs_body rnd n er ec s) i = d_parent s i"
  by (simp add: dfs_body_unfold dfs_visits_parent dfs_take_parent)

lemma dfs_steps_parent:
  "d_parent s i \<noteq> -1 \<Longrightarrow> d_parent ((dfs_step rnd er ec ^^ m) s) i = d_parent s i"
  by (induction m) (simp_all add: dfs_step_def dfs_body_parent)

text \<open>
  Claim C2. In \<open>solve_bfs\<close> and in \<open>solve_dfs\<close>, a parent entry that is not the unset
  sentinel \<open>-1\<close> keeps its value: through a round of the inner \<open>for\<close> that finds the
  cell again (\<open>bfs_visit\<close>, \<open>dfs_visit\<close>), through any part of a loop iteration
  (\<open>bfs_body\<close>, \<open>dfs_body\<close>) and through any number of further iterations.
\<close>

theorem parent_written_once:
  "(b_parent s i \<noteq> -1 \<longrightarrow>
      b_parent (bfs_visit r c s j) i = b_parent s i
      \<and> b_parent (bfs_body n er ec s) i = b_parent s i
      \<and> b_parent ((bfs_step er ec ^^ m) s) i = b_parent s i)
   \<and> (d_parent t i \<noteq> -1 \<longrightarrow>
      d_parent (dfs_visit r c t j) i = d_parent t i
      \<and> d_parent (dfs_body rnd n er ec t) i = d_parent t i
      \<and> d_parent ((dfs_step rnd er ec ^^ m) t) i = d_parent t i)"
  by (simp add: bfs_visit_parent bfs_body_parent bfs_steps_parent
      dfs_visit_parent dfs_body_parent dfs_steps_parent)

text \<open>
  On a grid of one row and three open cells with the start in the middle, the parent
  of the start is the root sentinel from the beginning and is still that after three
  iterations of either loop.
\<close>

theorem parent_written_once_witness:
  "b_parent (bfs_init \<lparr>rows = 1, cols = 3, cells = (\<lambda>_. 0), marks = (\<lambda>_. 0)\<rparr> 0 1) 1 \<noteq> -1
   \<and> d_parent (dfs_init \<lparr>rows = 1, cols = 3, cells = (\<lambda>_. 0), marks = (\<lambda>_. 0)\<rparr> 0 1 0) 1 \<noteq> -1
   \<and> b_parent ((bfs_step 0 2 ^^ 3) (bfs_init \<lparr>rows = 1, cols = 3, cells = (\<lambda>_. 0), marks = (\<lambda>_. 0)\<rparr> 0 1)) 1
      = -2
   \<and> d_parent ((dfs_step (\<lambda>_. 0) 0 2 ^^ 3) (dfs_init \<lparr>rows = 1, cols = 3, cells = (\<lambda>_. 0), marks = (\<lambda>_. 0)\<rparr> 0 1 0)) 1
      = -2"
proof -
  let ?G = "\<lparr>rows = 1, cols = 3, cells = (\<lambda>_. 0), marks = (\<lambda>_. 0)\<rparr>"
  let ?b = "bfs_init ?G 0 1"
  let ?d = "dfs_init ?G 0 1 0"
  have b: "b_parent ?b 1 = -2" by (simp add: bfs_init_def Let_def)
  have d: "d_parent ?d 1 = -2" by (simp add: dfs_init_def Let_def)
  have b1: "b_parent ?b 1 \<noteq> -1" and d1: "d_parent ?d 1 \<noteq> -1" using b d by simp_all
  from parent_written_once[of ?b 1 0 0 0 0 0 2 3 ?d "\<lambda>_. 0"] b1 d1 b d
  show ?thesis by simp
qed

section \<open>The frontier never outgrows its array\<close>

lemma bfs_shape_safe: "bfs_shape g st s \<Longrightarrow> queue_safe g (b_queue s)"
  using bfs_shape_tail[of g st s] bfs_shapeD(2,3,4,5)[of g st s]
  by (simp add: queue_safe_def)

lemma dfs_shape_safe: "dfs_shape g st s \<Longrightarrow> stack_safe g (d_stack s)"
  using dfs_shape_top[of g st s] dfs_shapeD(2,3,4)[of g st s]
  by (simp add: stack_safe_def)

lemma dfs_body_marks:
  assumes sh: "dfs_shape g st s" and sh': "dfs_shape g st (dfs_body rnd n er ec s)"
    and v: "inside g v" and m: "marks (d_grid s) (cell_index g v) \<noteq> M_NONE"
  shows "marks (d_grid (dfs_body rnd n er ec s)) (cell_index g v) \<noteq> M_NONE"
proof -
  from m have "d_parent s (cell_index g v) \<noteq> -1"
    using dfs_shapeD(6)[OF sh v] by (simp add: discovered_def)
  then have "d_parent (dfs_body rnd n er ec s) (cell_index g v) \<noteq> -1"
    by (simp add: dfs_body_parent)
  then show ?thesis using dfs_shapeD(6)[OF sh' v] v by (simp add: discovered_def)
qed

text \<open>
  Claim C10. At the head of the while loop and after any number \<open>n\<close> of rounds of the
  inner \<open>for\<close> of an iteration, the queue of \<open>solve_bfs\<close> holds every cell ever pushed
  exactly once below \<open>tail\<close>, with \<open>tail \<le> rows * cols < cap\<close>: \<open>tail\<close> never wraps
  and no unread entry is overwritten. The stack of \<open>solve_dfs\<close> holds distinct cells,
  with \<open>top \<le> rows * cols < cap\<close>, so \<open>stack_push\<close> never drops a cell; and a cell
  whose mark is not \<open>M_NONE\<close> keeps a mark, so it is not pushed a second time.
\<close>

theorem frontier_within_capacity:
  assumes st: "inside g (sr, sc)" and en: "inside g (er, ec)"
  shows "(bfs_reach g sr sc er ec s \<longrightarrow> queue_safe g (b_queue s))
     \<and> (bfs_reach g sr sc er ec s \<and> bfs_running s \<longrightarrow>
          queue_safe g (b_queue (bfs_body n er ec s)))
     \<and> (dfs_reach rnd k g sr sc er ec d \<longrightarrow> stack_safe g (d_stack d))
     \<and> (dfs_reach rnd k g sr sc er ec d \<and> dfs_running d \<longrightarrow>
          stack_safe g (d_stack (dfs_body rnd n er ec d))
          \<and> (\<forall>v. inside g v \<and> marks (d_grid d) (cell_index g v) \<noteq> M_NONE \<longrightarrow>
                 marks (d_grid (dfs_body rnd n er ec d)) (cell_index g v) \<noteq> M_NONE))"
proof -
  have 1: "queue_safe g (b_queue s)" if "bfs_reach g sr sc er ec s"
    using that bfs_reach_shape[OF st] bfs_shape_safe by blast
  have 2: "queue_safe g (b_queue (bfs_body n er ec s))"
    if a: "bfs_reach g sr sc er ec s \<and> bfs_running s"
  proof -
    from a have "bfs_shape g (sr, sc) s" using bfs_reach_shape[OF st] by blast
    from bfs_body_shape(1)[OF this] a show ?thesis using bfs_shape_safe by blast
  qed
  have 3: "stack_safe g (d_stack d)" if "dfs_reach rnd k g sr sc er ec d"
    using that dfs_reach_shape[OF st en] dfs_shape_safe by blast
  have 4: "stack_safe g (d_stack (dfs_body rnd n er ec d))
          \<and> (\<forall>v. inside g v \<and> marks (d_grid d) (cell_index g v) \<noteq> M_NONE \<longrightarrow>
                 marks (d_grid (dfs_body rnd n er ec d)) (cell_index g v) \<noteq> M_NONE)"
    if a: "dfs_reach rnd k g sr sc er ec d \<and> dfs_running d"
  proof -
    from a have sh: "dfs_shape g (sr, sc) d" and un: "dfs_unseen g (er, ec) d"
      using dfs_reach_shape[OF st en] by blast+
    from a have run: "dfs_running d" by simp
    note sh' = dfs_body_shape(1)[OF sh run un en, where rnd = rnd and n = n]
    show ?thesis using dfs_shape_safe[OF sh'] dfs_body_marks[OF sh sh'] by blast
  qed
  show ?thesis using 1 2 3 4 by blast
qed

lemma example_bfs_running:
  "bfs_running (bfs_init \<lparr>rows = 1, cols = 3, cells = (\<lambda>_. 0), marks = (\<lambda>_. 0)\<rparr> 0 1)"
  by (simp add: bfs_running_def bfs_init_def Let_def queue_empty_def queue_push_def queue_create_def)

lemma example_dfs_running:
  "dfs_running (dfs_init \<lparr>rows = 1, cols = 3, cells = (\<lambda>_. 0), marks = (\<lambda>_. 0)\<rparr> 0 1 0)"
  by (simp add: dfs_running_def dfs_init_def Let_def stack_empty_def stack_push_def stack_create_def)

lemma example_inside:
  "inside \<lparr>rows = 1, cols = 3, cells = (\<lambda>_. 0), marks = (\<lambda>_. 0)\<rparr> (0, 1)"
  "inside \<lparr>rows = 1, cols = 3, cells = (\<lambda>_. 0), marks = (\<lambda>_. 0)\<rparr> (0, 2)"
  by (simp_all add: inside_def is_inside_def)

theorem frontier_within_capacity_witness:
  "inside \<lparr>rows = 1, cols = 3, cells = (\<lambda>_. 0), marks = (\<lambda>_. 0)\<rparr> (0, 1)
   \<and> inside \<lparr>rows = 1, cols = 3, cells = (\<lambda>_. 0), marks = (\<lambda>_. 0)\<rparr> (0, 2)
   \<and> bfs_reach \<lparr>rows = 1, cols = 3, cells = (\<lambda>_. 0), marks = (\<lambda>_. 0)\<rparr> 0 1 0 2
        (bfs_init \<lparr>rows = 1, cols = 3, cells = (\<lambda>_. 0), marks = (\<lambda>_. 0)\<rparr> 0 1)
   \<and> bfs_running (bfs_init \<lparr>rows = 1, cols = 3, cells = (\<lambda>_. 0), marks = (\<lambda>_. 0)\<rparr> 0 1)
   \<and> dfs_reach (\<lambda>_. 0) 0 \<lparr>rows = 1, cols = 3, cells = (\<lambda>_. 0), marks = (\<lambda>_. 0)\<rparr> 0 1 0 2
        (dfs_init \<lparr>rows = 1, cols = 3, cells = (\<lambda>_. 0), marks = (\<lambda>_. 0)\<rparr> 0 1 0)
   \<and> dfs_running (dfs_init \<lparr>rows = 1, cols = 3, cells = (\<lambda>_. 0), marks = (\<lambda>_. 0)\<rparr> 0 1 0)
   \<and> queue_safe \<lparr>rows = 1, cols = 3, cells = (\<lambda>_. 0), marks = (\<lambda>_. 0)\<rparr>
        (b_queue (bfs_body 2 0 2 (bfs_init \<lparr>rows = 1, cols = 3, cells = (\<lambda>_. 0), marks = (\<lambda>_. 0)\<rparr> 0 1)))
   \<and> stack_safe \<lparr>rows = 1, cols = 3, cells = (\<lambda>_. 0), marks = (\<lambda>_. 0)\<rparr>
        (d_stack (dfs_body (\<lambda>_. 0) 2 0 2 (dfs_init \<lparr>rows = 1, cols = 3, cells = (\<lambda>_. 0), marks = (\<lambda>_. 0)\<rparr> 0 1 0)))"
proof -
  let ?G = "\<lparr>rows = 1, cols = 3, cells = (\<lambda>_. 0), marks = (\<lambda>_. 0)\<rparr>"
  note i = example_inside
  have rb: "bfs_reach ?G 0 1 0 2 (bfs_init ?G 0 1)" by (rule bfs_reach_init)
  have rd: "dfs_reach (\<lambda>_. 0) 0 ?G 0 1 0 2 (dfs_init ?G 0 1 0)" by (rule dfs_reach_init)
  note T = frontier_within_capacity[OF i, of "bfs_init ?G 0 1" 2 "\<lambda>_. 0" 0 "dfs_init ?G 0 1 0"]
  from T rb example_bfs_running
  have qs: "queue_safe ?G (b_queue (bfs_body 2 0 2 (bfs_init ?G 0 1)))" by blast
  from T rd example_dfs_running
  have ss: "stack_safe ?G (d_stack (dfs_body (\<lambda>_. 0) 2 0 2 (dfs_init ?G 0 1 0)))" by blast
  show ?thesis by (intro conjI i rb rd example_bfs_running example_dfs_running qs ss)
qed

section \<open>The generated maze\<close>

lemma gen_loop_total:
  assumes step: "\<And>s. I s \<Longrightarrow> gn_top s > 0
                 \<Longrightarrow> I (gen_step rnd s) \<and> m (gen_step rnd s) < (m s :: nat)"
    and init: "I s"
  shows "\<exists>t. gen_loop rnd s = Some t \<and> I t \<and> \<not> gn_top t > 0"
  using init
proof (induction "m s" arbitrary: s rule: less_induct)
  case less
  show ?case
  proof (cases "gn_top s > 0")
    case True
    from step[OF less.prems True]
    have i: "I (gen_step rnd s)" and l: "m (gen_step rnd s) < m s" by simp_all
    from less.hyps[OF l i] obtain t where
      t: "gen_loop rnd (gen_step rnd s) = Some t" "I t" "\<not> gn_top t > 0" by blast
    have "gen_loop rnd s = Some t"
      using True t(1) by (subst gen_loop.simps) simp
    with t show ?thesis by blast
  next
    case False
    then have "gen_loop rnd s = Some s" by (subst gen_loop.simps) simp
    with False less.prems show ?thesis by blast
  qed
qed

lemma gen_init_inv:
  assumes od: "odd (rows g)" "odd (cols g)" and big: "3 \<le> rows g" "3 \<le> cols g"
  shows "gen_inv g (gen_init g k)"
proof -
  let ?s = "gen_init g k"
  have r11: "room g (1, 1)" using big by (simp add: room_def inside_def is_inside_def)
  have gr: "gn_grid ?s = gen_fill g" by (simp add: gen_init_def Let_def)
  have op: "is_open (gen_fill g) v = room g v" for v
  proof (cases "inside g v")
    case True
    then show ?thesis by (rule gen_fill_open)
  next
    case False
    then show ?thesis
      by (auto simp: is_open_def room_def inside_def is_inside_def gen_fill_dims)
  qed
  have vs: "gn_vis ?s = (\<lambda>_. 0)(cell_index g (1, 1) := 1)"
    by (simp add: gen_init_def Let_def cell_index_def)
  have V: "gen_visited g ?s = {(1, 1)}"
    unfolding gen_visited_def vs using visited_insert[OF r11, of "\<lambda>_. 0"] by simp
  have L: "gen_stack_list ?s = [(1, 1)]"
    using entries_snoc[of 0 0 "\<lambda>_. (0, 0)" "(1, 1)"]
    by (simp add: gen_stack_list_def gen_init_def Let_def entries_empty)
  have dd: "doors (gen_fill g) = {}"
    unfolding doors_dims[OF gen_fill_dims] by (simp add: op)
  show ?thesis
  proof (rule gen_invI)
    show "rows (gn_grid ?s) = rows g" "cols (gn_grid ?s) = cols g"
      by (simp_all add: gr gen_fill_dims)
    show "is_open (gn_grid ?s) v" if "room g v" for v using that by (simp add: gr op)
    show "a \<in> gen_visited g ?s"
      if "w \<in> doors (gn_grid ?s)" "room g a" "adjacent a w" for w a
      using that(1) by (simp add: gr dd)
    show "card (doors (gn_grid ?s)) + 1 = card (gen_visited g ?s)" by (simp add: gr dd V)
    show "(1, 1) \<in> gen_visited g ?s" by (simp add: V)
    show "reachable (gn_grid ?s) (1, 1) v" if "v \<in> gen_visited g ?s" for v
    proof -
      from that have "v = (1, 1)" by (simp add: V)
      moreover have "is_route (gen_fill g) (1, 1) (1, 1) [(1, 1)]"
        using r11 by (intro route_start) (simp add: op)
      ultimately show ?thesis unfolding reachable_def gr by blast
    qed
    show "0 \<le> gn_top ?s" by (simp add: gen_init_def Let_def)
    show "set (gen_stack_list ?s) \<subseteq> gen_visited g ?s" by (simp add: L V)
    show "far v j \<in> gen_visited g ?s"
      if "v \<in> gen_visited g ?s" "v \<notin> set (gen_stack_list ?s)" for v j
      using that by (simp add: L V)
  qed
qed

text \<open>Once the stack is empty, every room has been visited.\<close>

lemma all_rooms_visited:
  assumes inv: "gen_inv g s" and top: "gn_top s = 0"
  shows "room g v \<Longrightarrow> v \<in> gen_visited g s"
proof -
  note D = gen_invD[OF inv]
  have L: "gen_stack_list s = []" by (simp add: gen_stack_list_def top entries_empty)
  have next_room: "far v k \<in> gen_visited g s"
    if "v \<in> gen_visited g s" "k < 4" "room g (far v k)" for v k
    using D(10)[OF that(1) _ that(2,3)] by (simp add: L)
  have smaller: "room g (r', c')"
    if "room g (r, c)" "odd r'" "odd c'" "0 \<le> r'" "r' \<le> r" "0 \<le> c'" "c' \<le> c" for r c r' c'
    using that by (simp add: room_def inside_def is_inside_def)
  have row1: "room g (1, 2 * int b + 1) \<Longrightarrow> (1, 2 * int b + 1) \<in> gen_visited g s" for b
  proof (induction b)
    case 0
    then show ?case using D(6) by simp
  next
    case (Suc b)
    have "room g (1, 2 * int b + 1)" using smaller[OF Suc.prems, of 1 "2 * int b + 1"] by simp
    from Suc.IH[OF this] have v: "(1, 2 * int b + 1) \<in> gen_visited g s" .
    have f: "far (1, 2 * int b + 1) 3 = (1, 2 * int (Suc b) + 1)"
      by (simp add: far_mid_values)
    from next_room[OF v, of 3] Suc.prems show ?case unfolding f by simp
  qed
  have col: "room g (2 * int a + 1, 2 * int b + 1)
             \<Longrightarrow> (2 * int a + 1, 2 * int b + 1) \<in> gen_visited g s" for a b
  proof (induction a)
    case 0
    then show ?case using row1[of b] by simp
  next
    case (Suc a)
    have "room g (2 * int a + 1, 2 * int b + 1)"
      using smaller[OF Suc.prems, of "2 * int a + 1" "2 * int b + 1"] by simp
    from Suc.IH[OF this] have v: "(2 * int a + 1, 2 * int b + 1) \<in> gen_visited g s" .
    have f: "far (2 * int a + 1, 2 * int b + 1) 1 = (2 * int (Suc a) + 1, 2 * int b + 1)"
      by (simp add: far_mid_values)
    from next_room[OF v, of 1] Suc.prems show ?case unfolding f by simp
  qed
  assume r: "room g v"
  obtain x y where v: "v = (x, y)" by (cases v)
  from r have "odd x" "odd y" "0 \<le> x" "0 \<le> y"
    by (simp_all add: v room_def inside_def is_inside_def)
  then have "2 * (x div 2) + 1 = x" "2 * (y div 2) + 1 = y" "0 \<le> x div 2" "0 \<le> y div 2"
    by (simp_all add: odd_two_times_div_two_succ pos_imp_zdiv_nonneg_iff)
  then have e: "(2 * int (nat (x div 2)) + 1, 2 * int (nat (y div 2)) + 1) = (x, y)"
    by simp
  from col[of "nat (x div 2)" "nat (y div 2)"] r show ?thesis unfolding e v by blast
qed

lemma rooms_count:
  assumes od: "odd (rows g)" "odd (cols g)" and pos: "0 \<le> rows g" "0 \<le> cols g"
  shows "card {v. room g v} = nat ((rows g div 2) * (cols g div 2))"
proof -
  let ?f = "\<lambda>(a, b). (2 * a + 1, 2 * b + (1::int))"
  let ?A = "{0..<rows g div 2} \<times> {0..<cols g div 2}"
  have i: "inj_on ?f ?A" by (auto simp: inj_on_def)
  have "{v. room g v} = ?f ` ?A"
  proof (intro set_eqI iffI)
    fix v assume "v \<in> {v. room g v}"
    then obtain x y where v: "v = (x, y)" and r: "room g (x, y)" by (cases v) auto
    from r od have "(x div 2, y div 2) \<in> ?A" "x = 2 * (x div 2) + 1" "y = 2 * (y div 2) + 1"
      unfolding room_def inside_def is_inside_def by (simp_all, presburger+)
    then show "v \<in> ?f ` ?A" unfolding v by (intro image_eqI[of _ _ "(x div 2, y div 2)"]) auto
  next
    fix v assume "v \<in> ?f ` ?A"
    then obtain a b where v: "v = (2 * a + 1, 2 * b + 1)"
      and a: "0 \<le> a" "a < rows g div 2" and b: "0 \<le> b" "b < cols g div 2" by auto
    have "2 * a + 1 < rows g" "2 * b + 1 < cols g" using a b by linarith+
    then show "v \<in> {v. room g v}"
      using a b by (simp add: v room_def inside_def is_inside_def)
  qed
  then have "card {v. room g v} = card ?A" using card_image[OF i] by simp
  also have "\<dots> = nat (rows g div 2) * nat (cols g div 2)" by simp
  also have "\<dots> = nat ((rows g div 2) * (cols g div 2))"
    using pos by (simp add: nat_mult_distrib pos_imp_zdiv_nonneg_iff)
  finally show ?thesis .
qed

text \<open>
  Claim C3. On a grid with odd \<open>rows\<close> and \<open>cols\<close>, both at least 11, \<open>generate_maze\<close>
  returns for every sequence of values of \<open>rand()\<close>. In the grid it leaves, every room
  is open and has a route over open cells to \<open>(1, 1)\<close>, and the number of doors (open
  cells that are not rooms) is the number of rooms, \<open>(rows / 2) * (cols / 2)\<close>, minus
  one: the open cells connect the rooms as a tree.
\<close>

theorem generated_maze_is_tree:
  assumes od: "odd (rows g)" "odd (cols g)" and big: "11 \<le> rows g" "11 \<le> cols g"
  shows "\<exists>g'. generate_maze rnd k g = Some g'
           \<and> rows g' = rows g \<and> cols g' = cols g
           \<and> (\<forall>v. room g v \<longrightarrow> is_open g' v \<and> reachable g' (1, 1) v)
           \<and> card (doors g') = card {v. room g v} - 1
           \<and> card {v. room g v} = nat ((rows g div 2) * (cols g div 2))"
proof -
  have b3: "3 \<le> rows g" "3 \<le> cols g" using big by simp_all
  have step: "gen_inv g (gen_step rnd s) \<and> gen_measure g (gen_step rnd s) < gen_measure g s"
    if "gen_inv g s" "gn_top s > 0" for s
    using gen_step_inv[OF that(1) od that(2)] .
  from gen_loop_total[where I = "gen_inv g" and m = "gen_measure g", OF step gen_init_inv[OF od b3]]
  obtain t where t: "gen_loop rnd (gen_init g k) = Some t" "gen_inv g t" "\<not> gn_top t > 0"
    by blast
  note D = gen_invD[OF t(2)]
  have top: "gn_top t = 0" using t(3) D(8) by simp
  have V: "gen_visited g t = {v. room g v}"
    using all_rooms_visited[OF t(2) top] by (auto simp: gen_visited_def)
  have g: "generate_maze rnd k g = Some (gn_grid t)" by (simp add: generate_maze_def t(1))
  have "card (doors (gn_grid t)) = card {v. room g v} - 1" using D(5) unfolding V by simp
  moreover have "is_open (gn_grid t) v \<and> reachable (gn_grid t) (1, 1) v" if "room g v" for v
    using D(3)[OF that] D(7)[of v] that unfolding V by simp
  moreover have "card {v. room g v} = nat ((rows g div 2) * (cols g div 2))"
    using rooms_count[OF od] big by simp
  ultimately show ?thesis using g D(1,2) by blast
qed

theorem generated_maze_is_tree_witness:
  "odd (rows \<lparr>rows = 11, cols = 11, cells = (\<lambda>_. 1), marks = (\<lambda>_. 0)\<rparr>)
   \<and> odd (cols \<lparr>rows = 11, cols = 11, cells = (\<lambda>_. 1), marks = (\<lambda>_. 0)\<rparr>)
   \<and> 11 \<le> rows \<lparr>rows = 11, cols = 11, cells = (\<lambda>_. 1), marks = (\<lambda>_. 0)\<rparr>
   \<and> 11 \<le> cols \<lparr>rows = 11, cols = 11, cells = (\<lambda>_. 1), marks = (\<lambda>_. 0)\<rparr>
   \<and> (\<exists>g'. generate_maze (\<lambda>_. 0) 0 \<lparr>rows = 11, cols = 11, cells = (\<lambda>_. 1), marks = (\<lambda>_. 0)\<rparr> = Some g'
          \<and> card (doors g') = 24)"
proof -
  let ?G = "\<lparr>rows = 11, cols = 11, cells = (\<lambda>_. 1), marks = (\<lambda>_. 0)\<rparr>"
  have h: "odd (rows ?G)" "odd (cols ?G)" "11 \<le> rows ?G" "11 \<le> cols ?G" by simp_all
  from generated_maze_is_tree[OF h, of "\<lambda>_. 0" 0]
  have "\<exists>g'. generate_maze (\<lambda>_. 0) 0 ?G = Some g' \<and> card (doors g') = 24" by auto
  with h show ?thesis by (intro conjI)
qed

section \<open>The path of solve_dfs\<close>

text \<open>
  Claim C4. On a grid whose start cell is open (and whose end cell is inside),
  \<open>solve_dfs\<close> returns, and the path it walks back, when it is not empty, has no
  repeated cell, runs over open cells only, steps between adjacent cells, begins at the
  end cell and finishes at the start cell.
\<close>

theorem dfs_path_valid:
  assumes st: "is_open g (sr, sc)" and en: "inside g (er, ec)"
  shows "\<exists>t p g'. dfs_search rnd k g sr sc er ec = Some t
           \<and> reconstruct_path (d_parent t) (cols g) er ec = Some p
           \<and> solve_dfs rnd k g sr sc er ec = Some g'
           \<and> (p \<noteq> [] \<longrightarrow>
                 distinct (map (cell_of (cols g)) p)
                 \<and> open_path g (map (cell_of (cols g)) p)
                 \<and> hd (map (cell_of (cols g)) p) = (er, ec)
                 \<and> last (map (cell_of (cols g)) p) = (sr, sc))"
proof -
  from dfs_search_routes[OF st en, of rnd k] obtain t where
    t: "dfs_search rnd k g sr sc er ec = Some t"
       "parent_routes any_length g (sr, sc) (d_parent t)" by blast
  from routes_reconstruct[OF t(2) en, of "d_grid t"] obtain p g' where
    p: "reconstruct_path (d_parent t) (cols g) er ec = Some p"
       "reconstruct_and_mark (d_grid t) (d_parent t) (cols g) er ec = Some g'"
       "p \<noteq> [] \<longrightarrow> parent_path (d_parent t) (er * cols g + ec) p
                 \<and> is_route g (sr, sc) (er, ec) (map (cell_of (cols g)) p)" by blast
  have pos: "0 < cols g" using inside_positive[OF en] by simp
  have s: "solve_dfs rnd k g sr sc er ec = Some g'" by (simp add: solve_dfs_def t(1) p(2))
  have "distinct (map (cell_of (cols g)) p)
                 \<and> open_path g (map (cell_of (cols g)) p)
                 \<and> hd (map (cell_of (cols g)) p) = (er, ec)
                 \<and> last (map (cell_of (cols g)) p) = (sr, sc)" if "p \<noteq> []"
    using p(3) that parent_path_cells_distinct[OF _ pos] by (auto simp: is_route_def)
  with t(1) p(1) s show ?thesis by blast
qed

text \<open>A grid of one row and three open cells, from the left end to the right end.\<close>

theorem dfs_path_valid_witness:
  "is_open \<lparr>rows = 1, cols = 3, cells = (\<lambda>_. 0), marks = (\<lambda>_. 0)\<rparr> (0, 0)
   \<and> inside \<lparr>rows = 1, cols = 3, cells = (\<lambda>_. 0), marks = (\<lambda>_. 0)\<rparr> (0, 2)
   \<and> (\<exists>t p g'. dfs_search (\<lambda>_. 0) 0 \<lparr>rows = 1, cols = 3, cells = (\<lambda>_. 0), marks = (\<lambda>_. 0)\<rparr> 0 0 0 2 = Some t
         \<and> reconstruct_path (d_parent t) 3 0 2 = Some p
         \<and> solve_dfs (\<lambda>_. 0) 0 \<lparr>rows = 1, cols = 3, cells = (\<lambda>_. 0), marks = (\<lambda>_. 0)\<rparr> 0 0 0 2 = Some g')"
proof -
  let ?G = "\<lparr>rows = 1, cols = 3, cells = (\<lambda>_. 0), marks = (\<lambda>_. 0)\<rparr>"
  have o: "is_open ?G (0, 0)" by (simp add: is_open_def inside_def is_inside_def grid_get_def)
  have i: "inside ?G (0, 2)" by (simp add: inside_def is_inside_def)
  from dfs_path_valid[OF o i, of "\<lambda>_. 0" 0]
  have "\<exists>t p g'. dfs_search (\<lambda>_. 0) 0 ?G 0 0 0 2 = Some t
         \<and> reconstruct_path (d_parent t) 3 0 2 = Some p
         \<and> solve_dfs (\<lambda>_. 0) 0 ?G 0 0 0 2 = Some g'" by auto
  with o i show ?thesis by (intro conjI)
qed

section \<open>An end cell that was never discovered\<close>

text \<open>
  Claim C5. When \<open>parent[end]\<close> is the unset sentinel \<open>-1\<close> at the call,
  \<open>reconstruct_and_mark\<close> returns at once: the grid it leaves, and so the whole marks
  array, is the grid it was given, and the path it walked is empty.
\<close>

theorem reconstruct_unset_leaves_marks:
  "parent (er * cls + ec) = -1 \<Longrightarrow>
     reconstruct_and_mark g parent cls er ec = Some g
     \<and> reconstruct_path parent cls er ec = Some []"
  by (simp add: reconstruct_and_mark_def reconstruct_path_def)

theorem reconstruct_unset_leaves_marks_witness:
  "(\<lambda>_. -1 :: int) (0 * 3 + 2) = -1
   \<and> reconstruct_and_mark \<lparr>rows = 1, cols = 3, cells = (\<lambda>_. 0), marks = (\<lambda>_. 2)\<rparr>
         (\<lambda>_. -1) 3 0 2
       = Some \<lparr>rows = 1, cols = 3, cells = (\<lambda>_. 0), marks = (\<lambda>_. 2)\<rparr>"
  using reconstruct_unset_leaves_marks
          [of "\<lambda>_. -1" 0 3 2 "\<lparr>rows = 1, cols = 3, cells = (\<lambda>_. 0), marks = (\<lambda>_. 2)\<rparr>"]
  by simp

section \<open>The backward walk ends at the root\<close>

text \<open>
  Claim C6. When the parent array is a tree rooted at \<open>start\<close> over the
  \<open>rows * cols\<close> offsets of the grid, the walk of \<open>reconstruct_and_mark\<close> from an end
  cell whose parent is set returns: it visits at most \<open>rows * cols\<close> cells, the last
  one is \<open>start\<close>, whose parent is the root sentinel \<open>-2\<close>, and \<open>start\<close> carries the
  path mark afterwards.
\<close>

theorem reconstruct_reaches_root:
  assumes tree: "parent_tree parent (rws * cls) start"
    and grid: "cols g = cls" "0 < cls"
    and range: "0 \<le> er * cls + ec" "er * cls + ec < rws * cls"
    and set: "parent (er * cls + ec) \<noteq> -1"
  shows "\<exists>p g'. reconstruct_path parent cls er ec = Some p
           \<and> reconstruct_and_mark g parent cls er ec = Some g'
           \<and> p \<noteq> [] \<and> hd p = er * cls + ec \<and> last p = start \<and> parent (last p) = -2
           \<and> int (length p) \<le> rws * cls
           \<and> marks g' start AND M_PATH = M_PATH"
proof -
  let ?e = "er * cls + ec"
  from tree range set obtain p where p: "parent_path parent ?e p" "last p = start"
    unfolding parent_tree_def by blast
  have below: "\<forall>i. 0 \<le> i \<and> i < rws * cls \<longrightarrow> parent i < rws * cls"
    using tree unfolding parent_tree_def by blast
  have nonneg: "\<forall>j\<in>set p. 0 \<le> j" using parent_path_set[OF p(1)] by blast
  have inrange: "\<forall>j\<in>set p. 0 \<le> j \<and> j < rws * cls"
    using nonneg parent_path_below[OF below p(1) range(2)] by blast
  have len: "int (length p) \<le> rws * cls"
    using distinct_offsets_length[OF parent_path_distinct[OF p(1)] inrange] range by simp
  have ne: "p \<noteq> []" "hd p = ?e" using parent_path_hd[OF p(1)] by simp_all
  then have st: "start \<in> set p" using p(2) last_in_set by metis
  have m: "marks (mark_path g cls p) start AND M_PATH = M_PATH"
    using mark_path_marks[OF grid nonneg, of start] st by simp
  have rp: "reconstruct_path parent cls er ec = Some p"
    using set parent_path_cells[OF p(1)] by (simp add: reconstruct_path_def)
  have rm: "reconstruct_and_mark g parent cls er ec = Some (mark_path g cls p)"
    using set parent_path_reconstruct[OF p(1)] by (simp add: reconstruct_and_mark_def)
  show ?thesis
    using rp rm ne p(2) parent_path_last[OF p(1)] len m by auto
qed

theorem reconstruct_reaches_root_witness:
  "parent_tree ((\<lambda>_. -1)(0 := -2, 1 := 0)) (1 * 2) 0
   \<and> cols \<lparr>rows = 1, cols = 2, cells = (\<lambda>_. 0), marks = (\<lambda>_. 0)\<rparr> = 2
   \<and> (0::int) < 2 \<and> (0::int) \<le> 0 * 2 + 1 \<and> (0::int) * 2 + 1 < 1 * 2
   \<and> ((\<lambda>_. -1)(0 := -2, 1 := 0)) (0 * 2 + 1 :: int) \<noteq> (-1::int)
   \<and> (\<exists>p g'. reconstruct_path ((\<lambda>_. -1)(0 := -2, 1 := 0)) 2 0 1 = Some p
         \<and> reconstruct_and_mark \<lparr>rows = 1, cols = 2, cells = (\<lambda>_. 0), marks = (\<lambda>_. 0)\<rparr>
              ((\<lambda>_. -1)(0 := -2, 1 := 0)) 2 0 1 = Some g'
         \<and> last p = 0 \<and> int (length p) \<le> 1 * 2 \<and> marks g' 0 AND M_PATH = M_PATH)"
proof -
  let ?P = "(\<lambda>_. -1)(0 := -2, 1 := 0) :: int \<Rightarrow> int"
  let ?G = "\<lparr>rows = 1, cols = 2, cells = (\<lambda>_. 0), marks = (\<lambda>_. 0)\<rparr>"
  have p0: "parent_path ?P 0 [0]" by (rule parent_path.root) simp_all
  have p1: "parent_path ?P 1 [1, 0]" using p0 by (intro parent_path.link) simp_all
  have only: "i = 0 \<or> i = 1" if "0 \<le> i" "i < 1 * 2" for i :: int using that by linarith
  have t: "parent_tree ?P (1 * 2) 0"
    unfolding parent_tree_def
  proof (intro conjI allI impI)
    fix i :: int assume "0 \<le> i \<and> i < 1 * 2"
    then show "?P i < 1 * 2" using only[of i] by auto
  next
    fix i :: int assume "0 \<le> i \<and> i < 1 * 2 \<and> ?P i \<noteq> -1"
    then have "i = 0 \<or> i = 1" using only[of i] by simp
    then show "\<exists>p. parent_path ?P i p \<and> last p = 0" using p0 p1 by auto
  qed simp_all
  have h: "cols ?G = 2" "(0::int) < 2" "(0::int) \<le> 0 * 2 + 1" "(0::int) * 2 + 1 < 1 * 2"
    "?P (0 * 2 + 1) \<noteq> -1" by simp_all
  from reconstruct_reaches_root[OF t h]
  have ex: "\<exists>p g'. reconstruct_path ?P 2 0 1 = Some p
         \<and> reconstruct_and_mark ?G ?P 2 0 1 = Some g'
         \<and> last p = 0 \<and> int (length p) \<le> 1 * 2 \<and> marks g' 0 AND M_PATH = M_PATH"
    by (elim exE conjE) (intro exI conjI; assumption)
  show ?thesis by (intro conjI t h ex)
qed

section \<open>Both search loops return\<close>

lemma routes_reachable:
  assumes "parent_routes L g st parent" "inside g (er, ec)" "parent (er * cols g + ec) \<noteq> -1"
  shows "reachable g st (er, ec)"
proof -
  from assms(2,3) have "(er, ec) \<in> discovered g parent"
    by (simp add: discovered_def cell_index_def)
  from parent_routesD[OF assms(1) this] show ?thesis unfolding reachable_def by blast
qed

text \<open>
  Claim C7. On every grid, with the start and the end cell inside it, the while loops
  of \<open>solve_bfs\<close> and \<open>solve_dfs\<close> return, whether or not the end can be reached.
  When the loop was not left through \<open>break\<close> (the end cell was never popped), the
  frontier is empty and \<open>parent[end]\<close> is still the unset sentinel \<open>-1\<close>; and when
  the start is open and no path over open cells leads to the end, \<open>parent[end]\<close> is
  \<open>-1\<close> as well.
\<close>

theorem search_loops_terminate:
  assumes st: "inside g (sr, sc)" and en: "inside g (er, ec)"
  shows "(\<exists>t. bfs_search g sr sc er ec = Some t \<and> \<not> bfs_running t
            \<and> (\<not> b_done t \<longrightarrow>
                  queue_empty (b_queue t) \<and> b_parent t (er * cols g + ec) = -1)
            \<and> (is_open g (sr, sc) \<and> \<not> reachable g (sr, sc) (er, ec) \<longrightarrow>
                  b_parent t (er * cols g + ec) = -1))
       \<and> (\<exists>t. dfs_search rnd k g sr sc er ec = Some t \<and> \<not> dfs_running t
            \<and> (\<not> d_done t \<longrightarrow>
                  stack_empty (d_stack t) \<and> d_parent t (er * cols g + ec) = -1)
            \<and> (is_open g (sr, sc) \<and> \<not> reachable g (sr, sc) (er, ec) \<longrightarrow>
                  d_parent t (er * cols g + ec) = -1))"
proof
  from bfs_search_shape[OF st, of er ec] obtain t where
    t: "bfs_search g sr sc er ec = Some t" "\<not> bfs_running t"
       "bfs_shape g (sr, sc) t" "bfs_unseen (er, ec) t" by blast
  have a: "queue_empty (b_queue t) \<and> b_parent t (er * cols g + ec) = -1" if nd: "\<not> b_done t"
  proof -
    from nd t(2) have e: "queue_empty (b_queue t)" by (simp add: bfs_running_def)
    then have "queue_done (b_queue t) = queue_hist (b_queue t)"
      by (simp add: queue_empty_def queue_done_def queue_hist_def)
    with nd t(4) have "(er, ec) \<notin> set (queue_hist (b_queue t))" by (simp add: bfs_unseen_def)
    then have "(er, ec) \<notin> discovered g (b_parent t)" using bfs_shapeD(6)[OF t(3)] by simp
    with en e show ?thesis by (simp add: discovered_def cell_index_def)
  qed
  have b: "b_parent t (er * cols g + ec) = -1"
    if o: "is_open g (sr, sc) \<and> \<not> reachable g (sr, sc) (er, ec)"
  proof (rule ccontr)
    assume p: "b_parent t (er * cols g + ec) \<noteq> -1"
    from o bfs_search_levels[of g sr sc er ec] t(1)
    have "parent_routes (least_length g (sr, sc)) g (sr, sc) (b_parent t)" by auto
    from routes_reachable[OF this en p] o show False by simp
  qed
  from t(1,2) a b show "\<exists>t. bfs_search g sr sc er ec = Some t \<and> \<not> bfs_running t
            \<and> (\<not> b_done t \<longrightarrow>
                  queue_empty (b_queue t) \<and> b_parent t (er * cols g + ec) = -1)
            \<and> (is_open g (sr, sc) \<and> \<not> reachable g (sr, sc) (er, ec) \<longrightarrow>
                  b_parent t (er * cols g + ec) = -1)" by blast
next
  from dfs_search_shape[OF st en, of rnd k] obtain t where
    t: "dfs_search rnd k g sr sc er ec = Some t" "\<not> dfs_running t"
       "dfs_shape g (sr, sc) t" "dfs_unseen g (er, ec) t" by blast
  have a: "stack_empty (d_stack t) \<and> d_parent t (er * cols g + ec) = -1" if nd: "\<not> d_done t"
  proof -
    from nd t(2) have e: "stack_empty (d_stack t)" by (simp add: dfs_running_def)
    then have l: "stack_list (d_stack t) = []"
      by (simp add: stack_empty_def stack_list_def entries_empty)
    from nd t(4) have "marks (d_grid t) (cell_index g (er, ec)) AND M_VISIT = 0"
      by (simp add: dfs_unseen_def)
    with dfs_shapeD(7)[OF t(3), of "(er, ec)"] l
    have "(er, ec) \<notin> discovered g (d_parent t)" by auto
    with en e show ?thesis by (simp add: discovered_def cell_index_def)
  qed
  have b: "d_parent t (er * cols g + ec) = -1"
    if o: "is_open g (sr, sc) \<and> \<not> reachable g (sr, sc) (er, ec)"
  proof (rule ccontr)
    assume p: "d_parent t (er * cols g + ec) \<noteq> -1"
    from o dfs_search_routes[of g sr sc er ec rnd k] en t(1)
    have "parent_routes any_length g (sr, sc) (d_parent t)" by auto
    from routes_reachable[OF this en p] o show False by simp
  qed
  from t(1,2) a b show "\<exists>t. dfs_search rnd k g sr sc er ec = Some t \<and> \<not> dfs_running t
            \<and> (\<not> d_done t \<longrightarrow>
                  stack_empty (d_stack t) \<and> d_parent t (er * cols g + ec) = -1)
            \<and> (is_open g (sr, sc) \<and> \<not> reachable g (sr, sc) (er, ec) \<longrightarrow>
                  d_parent t (er * cols g + ec) = -1)" by blast
qed

text \<open>A grid of one row whose end cell is cut off from the start by a wall.\<close>

theorem search_loops_terminate_witness:
  "inside \<lparr>rows = 1, cols = 3, cells = (\<lambda>_. 0)(1 := 1), marks = (\<lambda>_. 0)\<rparr> (0, 0)
   \<and> inside \<lparr>rows = 1, cols = 3, cells = (\<lambda>_. 0)(1 := 1), marks = (\<lambda>_. 0)\<rparr> (0, 2)
   \<and> (\<exists>t. bfs_search \<lparr>rows = 1, cols = 3, cells = (\<lambda>_. 0)(1 := 1), marks = (\<lambda>_. 0)\<rparr> 0 0 0 2
             = Some t \<and> \<not> bfs_running t \<and> b_parent t 2 = -1)
   \<and> (\<exists>t. dfs_search (\<lambda>_. 0) 0 \<lparr>rows = 1, cols = 3, cells = (\<lambda>_. 0)(1 := 1), marks = (\<lambda>_. 0)\<rparr> 0 0 0 2
             = Some t \<and> \<not> dfs_running t \<and> d_parent t 2 = -1)"
proof -
  let ?G = "\<lparr>rows = 1, cols = 3, cells = (\<lambda>_. 0)(1 := 1), marks = (\<lambda>_. 0)\<rparr>"
  have i: "inside ?G (0, 0)" "inside ?G (0, 2)" by (simp_all add: inside_def is_inside_def)
  have o: "is_open ?G (0, 0)" by (simp add: is_open_def inside_def is_inside_def grid_get_def)
  have cells: "v = (0, 0) \<or> v = (0, 2)" if "is_open ?G v" for v
  proof -
    obtain r c where v: "v = (r, c)" by (cases v)
    from that have "r = 0" "0 \<le> c" "c < 3" "c \<noteq> 1"
      unfolding v by (auto simp: is_open_def inside_def is_inside_def grid_get_def split: if_splits)
    then show ?thesis unfolding v by auto
  qed
  have single: "\<exists>v. p = [v]" if "open_path ?G p" for p
  proof (cases p)
    case Nil
    with that show ?thesis by simp
  next
    case (Cons v p')
    show ?thesis
    proof (cases p')
      case Nil
      with Cons show ?thesis by simp
    next
      case c: (Cons u q)
      with that Cons have "is_open ?G v" "adjacent u v" "open_path ?G (u # q)" by simp_all
      moreover from this(3) have "is_open ?G u" by (cases q) simp_all
      ultimately show ?thesis using cells[of u] cells[of v] by (auto simp: adjacent_def)
    qed
  qed
  have n: "\<not> reachable ?G (0, 0) (0, 2)"
  proof
    assume "reachable ?G (0, 0) (0, 2)"
    then obtain p where p: "open_path ?G p" "hd p = (0, 2)" "last p = (0, 0)"
      by (auto simp: reachable_def is_route_def)
    from single[OF p(1)] p(2,3) show False by auto
  qed
  from search_loops_terminate[OF i, of "\<lambda>_. 0" 0] o n
  have "\<exists>t. bfs_search ?G 0 0 0 2 = Some t \<and> \<not> bfs_running t \<and> b_parent t 2 = -1"
    and "\<exists>t. dfs_search (\<lambda>_. 0) 0 ?G 0 0 0 2 = Some t \<and> \<not> dfs_running t \<and> d_parent t 2 = -1"
    by auto
  with i show ?thesis by (intro conjI)
qed

section \<open>Start and end in the same cell\<close>

lemma bfs_start_is_end:
  assumes "inside g (sr, sc)"
  shows "\<exists>t. bfs_search g sr sc sr sc = Some t
          \<and> b_parent t (sr * cols g + sc) = -2
          \<and> b_grid t = g\<lparr>marks := (fill (marks g) M_NONE (rows g * cols g))(sr * cols g + sc := M_VISIT)\<rparr>"
proof -
  let ?s = "bfs_init g sr sc"
  have r: "0 \<le> sr * cols g + sc \<and> sr * cols g + sc < rows g * cols g"
    using assms by (simp add: inside_def inside_idx)
  have run: "bfs_running ?s"
    using r by (simp add: bfs_running_def bfs_init_def Let_def queue_empty_def queue_push_def queue_create_def)
  have step: "bfs_step sr sc ?s =
    \<lparr>b_grid = g\<lparr>marks := (fill (marks g) M_NONE (rows g * cols g))(sr * cols g + sc := M_VISIT)\<rparr>,
     b_parent = (fill (\<lambda>_. 0) (-1) (rows g * cols g))(sr * cols g + sc := -2),
     b_queue = \<lparr>q_data = (\<lambda>_. (0, 0))(0 := (sr, sc)), q_head = 1, q_tail = 1, q_cap = rows g * cols g + 5\<rparr>,
     b_done = True\<rparr>"
    using r
    by (simp add: bfs_step_def bfs_body_def bfs_take_def bfs_init_def Let_def queue_push_def
        queue_pop_def queue_create_def mark_or_def mark_andnot_def M_NONE_def M_FRONT_def
        M_VISIT_def fill_def)
  have stop: "\<not> bfs_running (bfs_step sr sc ?s)" by (simp add: step bfs_running_def)
  have "bfs_loop sr sc (bfs_step sr sc ?s) = Some (bfs_step sr sc ?s)"
    using stop by (subst bfs_loop.simps) simp
  then have "bfs_loop sr sc ?s = Some (bfs_step sr sc ?s)"
    using run by (subst bfs_loop.simps) simp
  then show ?thesis by (simp add: bfs_search_def step)
qed

lemma dfs_start_is_end:
  assumes "inside g (sr, sc)"
  shows "\<exists>t. dfs_search rnd k g sr sc sr sc = Some t
          \<and> d_parent t (sr * cols g + sc) = -2
          \<and> d_grid t = g\<lparr>marks := (fill (marks g) M_NONE (rows g * cols g))(sr * cols g + sc := M_VISIT)\<rparr>"
proof -
  let ?s = "dfs_init g sr sc k"
  have r: "0 \<le> sr * cols g + sc \<and> sr * cols g + sc < rows g * cols g"
    using assms by (simp add: inside_def inside_idx)
  have run: "dfs_running ?s"
    using r by (simp add: dfs_running_def dfs_init_def Let_def stack_empty_def stack_push_def stack_create_def)
  have step: "dfs_step rnd sr sc ?s =
    \<lparr>d_grid = g\<lparr>marks := (fill (marks g) M_NONE (rows g * cols g))(sr * cols g + sc := M_VISIT)\<rparr>,
     d_parent = (fill (\<lambda>_. 0) (-1) (rows g * cols g))(sr * cols g + sc := -2),
     d_stack = \<lparr>s_data = (\<lambda>_. (0, 0))(0 := (sr, sc)), s_top = 0, s_cap = rows g * cols g + 5\<rparr>,
     d_done = True, d_rand = k\<rparr>"
    using r
    by (simp add: dfs_step_def dfs_body_def dfs_take_def dfs_init_def Let_def stack_push_def
        stack_pop_def stack_create_def mark_or_def mark_andnot_def M_NONE_def M_FRONT_def
        M_VISIT_def fill_def)
  have stop: "\<not> dfs_running (dfs_step rnd sr sc ?s)" by (simp add: step dfs_running_def)
  have "dfs_loop rnd sr sc (dfs_step rnd sr sc ?s) = Some (dfs_step rnd sr sc ?s)"
    using stop by (subst dfs_loop.simps) simp
  then have "dfs_loop rnd sr sc ?s = Some (dfs_step rnd sr sc ?s)"
    using run by (subst dfs_loop.simps) simp
  then show ?thesis by (simp add: dfs_search_def step)
qed

lemma single_cell_path:
  assumes i: "inside g (sr, sc)" and p: "parent (sr * cols g + sc) = -2"
    and h: "cols h = cols g" "rows h = rows g"
    and m: "marks h = (fill (marks g) M_NONE (rows g * cols g))(sr * cols g + sc := M_VISIT)"
  shows "reconstruct_path parent (cols g) sr sc = Some [sr * cols g + sc]
         \<and> (\<exists>g'. reconstruct_and_mark h parent (cols g) sr sc = Some g'
               \<and> marks g' = (fill (marks g) M_NONE (rows g * cols g))
                               (sr * cols g + sc := M_VISIT OR M_PATH)
               \<and> (\<forall>j. 0 \<le> j \<and> j < rows g * cols g \<longrightarrow>
                     (marks g' j AND M_PATH \<noteq> 0) = (j = sr * cols g + sc)))"
proof -
  let ?i = "sr * cols g + sc"
  have r: "0 \<le> ?i" "?i < rows g * cols g" "0 < cols g"
    using i inside_positive[OF i] by (simp_all add: inside_def inside_idx)
  have pp: "parent_path parent ?i [?i]" using p r(1) by (rule parent_path.root)
  have rp: "reconstruct_path parent (cols g) sr sc = Some [?i]"
    using p parent_path_cells[OF pp] by (simp add: reconstruct_path_def)
  have rm: "reconstruct_and_mark h parent (cols g) sr sc = Some (mark_path h (cols g) [?i])"
    using p parent_path_reconstruct[OF pp] by (simp add: reconstruct_and_mark_def)
  have mk: "marks (mark_path h (cols g) [?i]) j
            = (if j \<in> set [?i] then marks h j OR M_PATH else marks h j)" for j
    using mark_path_marks[OF h(1) r(3), of "[?i]" j] r(1) by simp
  have m': "marks (mark_path h (cols g) [?i])
            = (fill (marks g) M_NONE (rows g * cols g))(?i := M_VISIT OR M_PATH)"
    by (rule ext) (simp add: mk m)
  have "(marks (mark_path h (cols g) [?i]) j AND M_PATH \<noteq> 0) = (j = ?i)"
    if "0 \<le> j \<and> j < rows g * cols g" for j
    using that by (simp add: m' fill_def M_NONE_def M_VISIT_def M_PATH_def)
  with rp rm m' show ?thesis by blast
qed

text \<open>
  Claim C8. When the start cell is the end cell, the path walked after either solver
  is the single offset of that cell, and the marks left are: visited and path on that
  cell, \<open>M_NONE\<close> on every other cell of the grid, so the path bit is on that one cell.
\<close>

theorem start_equals_end_path:
  assumes "inside g (sr, sc)"
  shows "(\<exists>t g'. bfs_search g sr sc sr sc = Some t
            \<and> reconstruct_path (b_parent t) (cols g) sr sc = Some [sr * cols g + sc]
            \<and> solve_bfs g sr sc sr sc = Some g'
            \<and> marks g' = (fill (marks g) M_NONE (rows g * cols g))
                            (sr * cols g + sc := M_VISIT OR M_PATH)
            \<and> (\<forall>j. 0 \<le> j \<and> j < rows g * cols g \<longrightarrow>
                  (marks g' j AND M_PATH \<noteq> 0) = (j = sr * cols g + sc)))
       \<and> (\<exists>t g'. dfs_search rnd k g sr sc sr sc = Some t
            \<and> reconstruct_path (d_parent t) (cols g) sr sc = Some [sr * cols g + sc]
            \<and> solve_dfs rnd k g sr sc sr sc = Some g'
            \<and> marks g' = (fill (marks g) M_NONE (rows g * cols g))
                            (sr * cols g + sc := M_VISIT OR M_PATH)
            \<and> (\<forall>j. 0 \<le> j \<and> j < rows g * cols g \<longrightarrow>
                  (marks g' j AND M_PATH \<noteq> 0) = (j = sr * cols g + sc)))"
proof
  from bfs_start_is_end[OF assms] obtain t where
    t: "bfs_search g sr sc sr sc = Some t" "b_parent t (sr * cols g + sc) = -2"
       "b_grid t = g\<lparr>marks := (fill (marks g) M_NONE (rows g * cols g))(sr * cols g + sc := M_VISIT)\<rparr>"
    by blast
  have h: "cols (b_grid t) = cols g" "rows (b_grid t) = rows g"
    "marks (b_grid t) = (fill (marks g) M_NONE (rows g * cols g))(sr * cols g + sc := M_VISIT)"
    by (simp_all add: t(3))
  from single_cell_path[of g sr sc "b_parent t" "b_grid t", OF assms t(2) h] t(1)
  show "\<exists>t g'. bfs_search g sr sc sr sc = Some t
            \<and> reconstruct_path (b_parent t) (cols g) sr sc = Some [sr * cols g + sc]
            \<and> solve_bfs g sr sc sr sc = Some g'
            \<and> marks g' = (fill (marks g) M_NONE (rows g * cols g))
                            (sr * cols g + sc := M_VISIT OR M_PATH)
            \<and> (\<forall>j. 0 \<le> j \<and> j < rows g * cols g \<longrightarrow>
                  (marks g' j AND M_PATH \<noteq> 0) = (j = sr * cols g + sc))"
    unfolding solve_bfs_def by auto
next
  from dfs_start_is_end[OF assms, of rnd k] obtain t where
    t: "dfs_search rnd k g sr sc sr sc = Some t" "d_parent t (sr * cols g + sc) = -2"
       "d_grid t = g\<lparr>marks := (fill (marks g) M_NONE (rows g * cols g))(sr * cols g + sc := M_VISIT)\<rparr>"
    by blast
  have h: "cols (d_grid t) = cols g" "rows (d_grid t) = rows g"
    "marks (d_grid t) = (fill (marks g) M_NONE (rows g * cols g))(sr * cols g + sc := M_VISIT)"
    by (simp_all add: t(3))
  from single_cell_path[of g sr sc "d_parent t" "d_grid t", OF assms t(2) h] t(1)
  show "\<exists>t g'. dfs_search rnd k g sr sc sr sc = Some t
            \<and> reconstruct_path (d_parent t) (cols g) sr sc = Some [sr * cols g + sc]
            \<and> solve_dfs rnd k g sr sc sr sc = Some g'
            \<and> marks g' = (fill (marks g) M_NONE (rows g * cols g))
                            (sr * cols g + sc := M_VISIT OR M_PATH)
            \<and> (\<forall>j. 0 \<le> j \<and> j < rows g * cols g \<longrightarrow>
                  (marks g' j AND M_PATH \<noteq> 0) = (j = sr * cols g + sc))"
    unfolding solve_dfs_def by auto
qed

theorem start_equals_end_path_witness:
  "inside \<lparr>rows = 3, cols = 3, cells = (\<lambda>_. 0), marks = (\<lambda>_. 7)\<rparr> (1, 1)
   \<and> (\<exists>t. bfs_search \<lparr>rows = 3, cols = 3, cells = (\<lambda>_. 0), marks = (\<lambda>_. 7)\<rparr> 1 1 1 1 = Some t
          \<and> reconstruct_path (b_parent t) 3 1 1 = Some [4])
   \<and> (\<exists>t. dfs_search (\<lambda>_. 0) 0 \<lparr>rows = 3, cols = 3, cells = (\<lambda>_. 0), marks = (\<lambda>_. 7)\<rparr> 1 1 1 1 = Some t
          \<and> reconstruct_path (d_parent t) 3 1 1 = Some [4])"
proof -
  let ?G = "\<lparr>rows = 3, cols = 3, cells = (\<lambda>_. 0), marks = (\<lambda>_. 7)\<rparr>"
  have i: "inside ?G (1, 1)" by (simp add: inside_def is_inside_def)
  from start_equals_end_path[OF i, of "\<lambda>_. 0" 0]
  have "\<exists>t. bfs_search ?G 1 1 1 1 = Some t \<and> reconstruct_path (b_parent t) 3 1 1 = Some [4]"
    and "\<exists>t. dfs_search (\<lambda>_. 0) 0 ?G 1 1 1 1 = Some t \<and> reconstruct_path (d_parent t) 3 1 1 = Some [4]"
    by auto
  with i show ?thesis by (intro conjI)
qed

section \<open>The animation delay\<close>

text \<open>
  Claim C9 says that the delay typed at the prompt is clamped to a non-negative range
  before it reaches the solvers. \<open>main\<close> has no such clamp: the number goes to
  \<open>solve_dfs\<close> and \<open>solve_bfs\<close> as typed, negative or large.
\<close>

theorem delay_not_clamped:
  "cfg_delay (main_config None None None (Some (-5))) = -5
   \<and> \<not> 0 \<le> cfg_delay (main_config None None None (Some (-5)))
   \<and> cfg_delay (main_config None None None (Some 5000)) = 5000"
  by (simp add: main_config_def get_int_with_default_def)

text \<open>
  Claim C9, amended. The solvers receive the number that was typed, or 40 when none was;
  the only guard is in \<open>sleep_ms\<close>, which does not call \<open>usleep\<close> for a delay that is
  not positive, so that a negative delay has the effect of the delay 0. No upper bound
  is applied anywhere.
\<close>

theorem delay_passed_as_typed:
  "cfg_delay (main_config in_cols in_rows in_algo (Some x)) = x
   \<and> cfg_delay (main_config in_cols in_rows in_algo None) = 40
   \<and> (ms \<le> 0 \<longrightarrow> sleep_ms ms = NoSleep)
   \<and> sleep_ms ms = sleep_ms (max 0 ms)"
  by (simp add: main_config_def get_int_with_default_def sleep_ms_def Let_def max_def)

theorem delay_passed_as_typed_witness:
  "(-5 :: int) \<le> 0 \<and> sleep_ms (-5) = NoSleep
   \<and> cfg_delay (main_config None None None (Some (-5))) = -5"
  using delay_passed_as_typed [of None None None "-5" "-5"]
  by simp

end
